theory Spec2Isabelle
  imports Complex_Main "HOL-Library.AList"
begin

section \<open>Python values shared by the model\<close>

text \<open>
  Exceptions are values. Every function of the source that can raise returns its
  exception in the model; the payload is the text \<open>str(e)\<close> of the exception.
  A time (seconds) is a Python float: the model has the real number that a finite
  float denotes, and the sums that occur are taken to be finite. Comparing floats and
  taking their \<open>max\<close> is exact; adding two floats rounds. What \<open>a + b\<close> evaluates to is not fixed here: every function that
  adds floats takes the addition as its first argument \<open>fadd\<close>, and what is proved
  holds for every such function.
  Python integers are unbounded and are modelled by \<open>int\<close>.
  A \<open>dict\<close> is an association list in insertion order with one entry per key:
  \<open>d[k] = v\<close> is \<open>AList.update\<close>, \<open>del d[k]\<close> is \<open>AList.delete\<close>,
  \<open>d.get(k)\<close> is \<open>map_of\<close>.
\<close>

datatype error =
    ValueError string
  | IndexError string
  | RuntimeError string
  | AttributeError string
  | UnboundLocalError string
  | OverflowError string
  | RenderError string
  | OtherException string
  | BaseException string

text \<open>\<open>BaseException\<close> stands for what is raised outside the \<open>Exception\<close>
  hierarchy (\<open>KeyboardInterrupt\<close>, \<open>SystemExit\<close>): a handler \<open>except Exception\<close>
  lets it through. \<open>OtherException\<close> is any further subclass of \<open>Exception\<close>.\<close>

fun is_Exception :: "error \<Rightarrow> bool" where
  "is_Exception (BaseException m) = False"
| "is_Exception e = True"

text \<open>\<open>str(e)\<close>.\<close>

fun str :: "error \<Rightarrow> string" where
  "str (ValueError m) = m"
| "str (IndexError m) = m"
| "str (RuntimeError m) = m"
| "str (AttributeError m) = m"
| "str (UnboundLocalError m) = m"
| "str (OverflowError m) = m"
| "str (RenderError m) = m"
| "str (OtherException m) = m"
| "str (BaseException m) = m"

type_synonym float_add = "real \<Rightarrow> real \<Rightarrow> real"

text \<open>
  \<open>list.insert(index, x)\<close>. The index is converted to the index type of the
  interpreter, \<open>Py_ssize_t\<close>, 64 bits wide on the builds considered: an integer
  outside that range raises \<open>OverflowError\<close> and the list is left alone. Inside
  the range a negative index counts from the end, the position is brought into the
  list, and the elements from that position on move up by one (\<open>shift_in\<close>).
\<close>

definition ssize_t_max :: int where
  "ssize_t_max = 2 ^ 63 - 1"

fun shift_in :: "nat \<Rightarrow> 'a \<Rightarrow> 'a list \<Rightarrow> 'a list" where
  "shift_in 0 x ys = x # ys"
| "shift_in (Suc n) x [] = [x]"
| "shift_in (Suc n) x (y # ys) = y # shift_in n x ys"

definition py_insert :: "'a list \<Rightarrow> int \<Rightarrow> 'a \<Rightarrow> error + 'a list" where
  "py_insert xs i x =
     (if i < - ssize_t_max - 1 \<or> ssize_t_max < i
      then Inl (OverflowError ''Python int too large to convert to C ssize_t'')
      else if i < 0
           then (if i + int (length xs) < 0 then Inr (shift_in 0 x xs)
                 else Inr (shift_in (nat (i + int (length xs))) x xs))
           else Inr (shift_in (nat i) x xs))"

text \<open>\<open>list.pop(i)\<close> as used by the source, behind the guard \<open>0 <= i < len\<close>.\<close>

definition py_pop :: "'a list \<Rightarrow> nat \<Rightarrow> 'a list" where
  "py_pop xs i = take i xs @ drop (Suc i) xs"

text \<open>\<open>xs[i]\<close> reads position \<open>i\<close>, or \<open>len(xs) + i\<close> for a negative \<open>i\<close>
  down to \<open>-len(xs)\<close>; any other index raises \<open>IndexError\<close>.\<close>

definition py_getitem :: "'a list \<Rightarrow> int \<Rightarrow> error + 'a" where
  "py_getitem xs i =
     (if 0 \<le> i \<and> i < int (length xs) then Inr (xs ! nat i)
      else if i < 0 \<and> - int (length xs) \<le> i then Inr (xs ! nat (int (length xs) + i))
      else Inl (IndexError ''list index out of range''))"

text \<open>The assignment \<open>xs[i] = v\<close> follows the same rule for \<open>i\<close>.\<close>

definition py_setitem :: "'a list \<Rightarrow> int \<Rightarrow> 'a \<Rightarrow> error + 'a list" where
  "py_setitem xs i v =
     (if 0 \<le> i \<and> i < int (length xs) then Inr (xs[nat i := v])
      else if i < 0 \<and> - int (length xs) \<le> i then Inr (xs[nat (int (length xs) + i) := v])
      else Inl (IndexError ''list assignment index out of range''))"

text \<open>\<open>list.index(x)\<close>: the first position holding \<open>x\<close>, or \<open>ValueError\<close>.\<close>

fun py_index :: "'a list \<Rightarrow> 'a \<Rightarrow> error + nat" where
  "py_index [] x = Inl (ValueError ''x not in list'')"
| "py_index (y # ys) x =
     (if y = x then Inr 0
      else (case py_index ys x of Inl e \<Rightarrow> Inl e | Inr n \<Rightarrow> Inr (Suc n)))"

text \<open>\<open>max(generator)\<close>: the items are produced in order, the first one that raises
  ends the call, and an empty sequence raises \<open>ValueError\<close>.\<close>

fun collect :: "(error + 'a) list \<Rightarrow> error + 'a list" where
  "collect [] = Inr []"
| "collect (Inl e # rs) = Inl e"
| "collect (Inr v # rs) = (case collect rs of Inl e \<Rightarrow> Inl e | Inr vs \<Rightarrow> Inr (v # vs))"

fun py_max :: "real list \<Rightarrow> error + real" where
  "py_max [] = Inl (ValueError ''max() arg is an empty sequence'')"
| "py_max (x # xs) = Inr (fold max xs x)"

definition py_max_of :: "(error + real) list \<Rightarrow> error + real" where
  "py_max_of rs = (case collect rs of Inl e \<Rightarrow> Inl e | Inr vs \<Rightarrow> py_max vs)"

section \<open>Clips (core/clips.py)\<close>

text \<open>
  The four concrete subclasses of \<open>Clip\<close> are the tag \<open>clip_class\<close>. \<open>Clip\<close>
  defines no \<open>__eq__\<close>, so \<open>==\<close>, \<open>list.index\<close> and \<open>list.remove\<close> compare
  object identity: \<open>clip_id\<close> is that identity. \<open>content\<close> is the \<open>source_path\<close>
  of a video, audio or image clip and the \<open>text\<close> of a text clip; the presentation
  attributes (scale, position, fonts, colours) play no part in the operations below.
\<close>

datatype clip_class = VideoClip | AudioClip | ImageClip | TextClip

record clip =
  clip_id :: nat
  clip_class :: clip_class
  start_time :: real
  duration :: "real option"
  clip_name :: "string option"
  content :: string

text \<open>\<open>Clip.end_time\<close>: the float sum \<open>self.start_time + self.duration\<close>.\<close>

definition end_time :: "float_add \<Rightarrow> clip \<Rightarrow> error + real" where
  "end_time fadd c =
     (case duration c of
        None \<Rightarrow> Inl (ValueError ''Cannot calculate end_time without duration'')
      | Some d \<Rightarrow> Inr (fadd (start_time c) d))"

fun class_name :: "clip_class \<Rightarrow> string" where
  "class_name VideoClip = ''VideoClip''"
| "class_name AudioClip = ''AudioClip''"
| "class_name ImageClip = ''ImageClip''"
| "class_name TextClip = ''TextClip''"

section \<open>Tracks (core/track.py)\<close>

datatype TrackType = VIDEO | AUDIO | TEXT | COMPOSITE

fun TrackType_value :: "TrackType \<Rightarrow> string" where
  "TrackType_value VIDEO = ''video''"
| "TrackType_value AUDIO = ''audio''"
| "TrackType_value TEXT = ''text''"
| "TrackType_value COMPOSITE = ''composite''"

text \<open>A transition (core/transitions.py) is stored and returned by a track, never
  inspected: its class and its duration identify it here.\<close>

datatype transition_class = Crossfade | Wipe | Fade | Slide

record transition =
  transition_class :: transition_class
  transition_duration :: real

text \<open>A track: its type, name and \<open>enabled\<close> flag, the list \<open>_clips\<close> and the
  dictionary \<open>_transitions\<close> from clip index to transition. \<open>opacity\<close>, \<open>muted\<close>,
  \<open>locked\<close> and \<open>_properties\<close> are set and read by their own accessors only.\<close>

record track =
  track_type :: TrackType
  track_name :: "string option"
  enabled :: bool
  clips :: "clip list"
  transitions :: "(int \<times> transition) list"

text \<open>\<open>Track.__init__\<close>.\<close>

definition Track :: "TrackType \<Rightarrow> string option \<Rightarrow> bool \<Rightarrow> track" where
  "Track tt nm en =
     \<lparr>track_type = tt, track_name = nm, enabled = en, clips = [], transitions = []\<rparr>"

text \<open>\<open>Track.duration\<close>.\<close>

definition track_duration :: "float_add \<Rightarrow> track \<Rightarrow> error + real" where
  "track_duration fadd tr =
     (if clips tr = [] then Inr 0
      else py_max_of (map (end_time fadd) (filter (\<lambda>c. duration c \<noteq> None) (clips tr))))"

text \<open>\<open>Track._validate_clip_type\<close>: \<open>None\<close> when it returns, the exception
  otherwise. \<open>valid_types\<close> is the dictionary of the source.\<close>

fun valid_types :: "TrackType \<Rightarrow> clip_class list option" where
  "valid_types VIDEO = Some [VideoClip, ImageClip]"
| "valid_types AUDIO = Some [AudioClip]"
| "valid_types TEXT = Some [TextClip]"
| "valid_types COMPOSITE = None"

definition validate_clip_type :: "track \<Rightarrow> clip \<Rightarrow> error option" where
  "validate_clip_type tr c =
     (if track_type tr = COMPOSITE then None
      else (case valid_types (track_type tr) of
              None \<Rightarrow> None
            | Some allowed_types \<Rightarrow>
                if clip_class c \<notin> set allowed_types
                then Some (ValueError (''Track type '' @ TrackType_value (track_type tr)
                             @ '' cannot contain '' @ class_name (clip_class c)))
                else None))"

text \<open>\<open>Track.add_clip\<close>. The result pairs what the call raised (\<open>None\<close> when it
  returned) with the track afterwards.\<close>

definition add_clip :: "track \<Rightarrow> clip \<Rightarrow> int option \<Rightarrow> error option \<times> track" where
  "add_clip tr c index =
     (case validate_clip_type tr c of
        Some e \<Rightarrow> (Some e, tr)
      | None \<Rightarrow>
          (case index of
             None \<Rightarrow> (None, tr\<lparr>clips := clips tr @ [c]\<rparr>)
           | Some i \<Rightarrow>
               (case py_insert (clips tr) i c of
                  Inl e \<Rightarrow> (Some e, tr)
                | Inr cs \<Rightarrow> (None, tr\<lparr>clips := cs\<rparr>))))"

text \<open>\<open>Track.remove_clip\<close> takes a clip or an index (\<open>isinstance(clip, int)\<close>).\<close>

datatype clip_or_index = ByIndex int | ByClip clip

fun remove_clip :: "track \<Rightarrow> clip_or_index \<Rightarrow> track" where
  "remove_clip tr (ByIndex i) =
     (if 0 \<le> i \<and> i < int (length (clips tr))
      then tr\<lparr>transitions := AList.delete i (transitions tr),
              clips := py_pop (clips tr) (nat i)\<rparr>
      else tr)"
| "remove_clip tr (ByClip c) =
     (case py_index (clips tr) c of
        Inl e \<Rightarrow> tr
      | Inr n \<Rightarrow> tr\<lparr>transitions := AList.delete (int n) (transitions tr),
                      clips := remove1 c (clips tr)\<rparr>)"

text \<open>\<open>Track.get_clip\<close>: the guard, then the list access \<open>self._clips[index]\<close>.\<close>

definition get_clip :: "track \<Rightarrow> int \<Rightarrow> error + clip option" where
  "get_clip tr index =
     (if 0 \<le> index \<and> index < int (length (clips tr))
      then (case py_getitem (clips tr) index of Inl e \<Rightarrow> Inl e | Inr c \<Rightarrow> Inr (Some c))
      else Inr None)"

text \<open>\<open>Track.find_clips_at_time\<close>: the loop over \<open>self._clips\<close>, appending to
  \<open>active_clips\<close>. \<open>clip.end_time\<close> is read behind the test on \<open>duration\<close>; the
  loop returns the exception if that read raises.\<close>

fun find_clips_loop ::
  "float_add \<Rightarrow> clip list \<Rightarrow> real \<Rightarrow> clip list \<Rightarrow> error + clip list" where
  "find_clips_loop fadd [] t active_clips = Inr active_clips"
| "find_clips_loop fadd (c # cs) t active_clips =
     (if duration c \<noteq> None then
        (if start_time c \<le> t then
           (case end_time fadd c of
              Inl e \<Rightarrow> Inl e
            | Inr e \<Rightarrow>
                if t < e then find_clips_loop fadd cs t (active_clips @ [c])
                else find_clips_loop fadd cs t active_clips)
         else find_clips_loop fadd cs t active_clips)
      else find_clips_loop fadd cs t active_clips)"

definition find_clips_at_time :: "float_add \<Rightarrow> track \<Rightarrow> real \<Rightarrow> error + clip list" where
  "find_clips_at_time fadd tr t = find_clips_loop fadd (clips tr) t []"

text \<open>\<open>Track.add_transition\<close>, \<open>Track.remove_transition\<close>, \<open>Track.get_transition\<close>.\<close>

definition add_transition :: "track \<Rightarrow> int \<Rightarrow> transition \<Rightarrow> track" where
  "add_transition tr clip_index tn =
     (if 0 \<le> clip_index \<and> clip_index < int (length (clips tr)) - 1
      then tr\<lparr>transitions := AList.update clip_index tn (transitions tr)\<rparr>
      else tr)"

definition remove_transition :: "track \<Rightarrow> int \<Rightarrow> track" where
  "remove_transition tr clip_index =
     (if map_of (transitions tr) clip_index \<noteq> None
      then tr\<lparr>transitions := AList.delete clip_index (transitions tr)\<rparr>
      else tr)"

definition get_transition :: "track \<Rightarrow> int \<Rightarrow> transition option" where
  "get_transition tr clip_index = map_of (transitions tr) clip_index"

section \<open>Timelines (core/timeline.py)\<close>

text \<open>A timeline owns an ordered list of tracks. The record is polymorphic in how a
  track is held: the track itself where only one timeline is in play, a reference
  into a store of track objects where a copy has to be told from its original.\<close>

record 't timeline =
  width :: int
  height :: int
  framerate :: real
  timeline_name :: "string option"
  tracks :: "'t list"

text \<open>\<open>Timeline.__init__\<close> with its default arguments.\<close>

definition Timeline :: "int \<Rightarrow> int \<Rightarrow> 't timeline" where
  "Timeline w h =
     \<lparr>width = w, height = h, framerate = 30, timeline_name = None, tracks = []\<rparr>"

text \<open>\<open>Timeline.duration\<close>.\<close>

definition timeline_duration :: "float_add \<Rightarrow> track timeline \<Rightarrow> error + real" where
  "timeline_duration fadd tln =
     (if tracks tln = [] then Inr 0
      else py_max_of (map (track_duration fadd) (filter enabled (tracks tln))))"

text \<open>\<open>Timeline.get_track\<close>.\<close>

definition get_track :: "'t timeline \<Rightarrow> int \<Rightarrow> error + 't option" where
  "get_track tln index =
     (if 0 \<le> index \<and> index < int (length (tracks tln))
      then (case py_getitem (tracks tln) index of Inl e \<Rightarrow> Inl e | Inr t \<Rightarrow> Inr (Some t))
      else Inr None)"

text \<open>Sequences of the mutating operations of a track, applied in order. A call
  that raises leaves the track as it was and the caller goes on.\<close>

datatype track_op =
    AddClip clip "int option"
  | RemoveClip clip_or_index
  | AddTransition int transition
  | RemoveTransition int

fun apply_track_op :: "track \<Rightarrow> track_op \<Rightarrow> track" where
  "apply_track_op tr (AddClip c index) = snd (add_clip tr c index)"
| "apply_track_op tr (RemoveClip r) = remove_clip tr r"
| "apply_track_op tr (AddTransition i tn) = add_transition tr i tn"
| "apply_track_op tr (RemoveTransition i) = remove_transition tr i"

definition run_track_ops :: "track \<Rightarrow> track_op list \<Rightarrow> track" where
  "run_track_ops tr ops = foldl apply_track_op tr ops"

text \<open>The invariant on transitions: every key of the transition dictionary is the
  position of a clip that is not the last one on the track.\<close>

definition transitions_valid :: "track \<Rightarrow> bool" where
  "transitions_valid tr =
     list_all (\<lambda>p. 0 \<le> fst p \<and> fst p < int (length (clips tr)) - 1) (transitions tr)"

text \<open>The allowed clip classes of each track type, as the specification lists them.\<close>

fun accepts :: "TrackType \<Rightarrow> clip_class \<Rightarrow> bool" where
  "accepts VIDEO k = (k = VideoClip \<or> k = ImageClip)"
| "accepts AUDIO k = (k = AudioClip)"
| "accepts TEXT k = (k = TextClip)"
| "accepts COMPOSITE k = True"

text \<open>Clips and tracks used as concrete inputs.\<close>

definition mk_clip :: "nat \<Rightarrow> clip_class \<Rightarrow> real \<Rightarrow> real option \<Rightarrow> clip" where
  "mk_clip i k s d =
     \<lparr>clip_id = i, clip_class = k, start_time = s, duration = d,
      clip_name = None, content = []\<rparr>"

definition crossfade :: transition where
  "crossfade = \<lparr>transition_class = Crossfade, transition_duration = 1\<rparr>"

text \<open>A track with clips at \<open>[0,5)\<close>, \<open>[4,7)\<close>, \<open>[8,10)\<close>, a clip without
  duration, and a clip that starts at \<open>10^16\<close> and lasts one second. \<open>double_add\<close>
  is the addition of double-precision floats on the sums this track needs: they are
  exact, except that \<open>10^16 + 1\<close> is rounded to \<open>10^16\<close>.\<close>

definition three :: track where
  "three = (Track COMPOSITE None True)\<lparr>clips :=
       [mk_clip 1 TextClip 0 (Some 5), mk_clip 2 TextClip 4 (Some 3),
        mk_clip 3 TextClip 8 (Some 2), mk_clip 4 VideoClip 0 None,
        mk_clip 5 TextClip (10 ^ 16) (Some 1)]\<rparr>"

definition double_add :: float_add where
  "double_add a b = (if a = 10 ^ 16 \<and> b = 1 then 10 ^ 16 else a + b)"

section \<open>Templates (templates/placeholder.py)\<close>

text \<open>
  \<open>VideoTemplate.fill\<close> copies the base timeline with \<open>copy.deepcopy\<close> and then
  assigns into the clip lists of the copy's tracks. Whether the base is touched is a
  question of which object an assignment reaches, so objects are kept apart here. The
  \<open>Track\<close> objects live in the \<open>cells\<close> of a store: a reference is a position in
  \<open>cells\<close>, a new track is appended, and a timeline holds references
  (\<open>ref timeline\<close>). A clip object is never assigned to by \<open>fill\<close>; what tells two
  clip objects apart is \<open>clip_id\<close>, and \<open>next_id\<close> is the identity that the next
  clip object created gets, the identities in use lying below it. Identities are
  compared and nothing else.
\<close>

type_synonym ref = nat

record store =
  cells :: "track list"
  next_id :: nat

definition read_timeline :: "store \<Rightarrow> ref timeline \<Rightarrow> track list" where
  "read_timeline s tln = map (\<lambda>r. cells s ! r) (tracks tln)"

text \<open>\<open>Timeline.add_track\<close> on the store: without a track argument a new \<open>Track\<close> is
  created.\<close>

definition add_track ::
  "store \<Rightarrow> ref timeline \<Rightarrow> ref option \<Rightarrow> TrackType \<Rightarrow> store \<times> ref timeline \<times> ref" where
  "add_track s tln track tt =
     (case track of
        None \<Rightarrow> (s\<lparr>cells := cells s @ [Track tt None True]\<rparr>,
                 tln\<lparr>tracks := tracks tln @ [length (cells s)]\<rparr>, length (cells s))
      | Some r \<Rightarrow> (s, tln\<lparr>tracks := tracks tln @ [r]\<rparr>, r))"

text \<open>
  \<open>Placeholder\<close> is an abstract class: a placeholder is its \<open>key\<close> and its two
  methods, which read the data and assign to nothing. \<open>create_clip\<close> returns a new clip object; here it returns the attributes
  of that clip, and the caller takes the identity of the new object from the store.
  The data handed to a template maps keys to plain strings, the scalar form that the
  concrete placeholder classes accept.
\<close>

type_synonym template_data = "(string \<times> string) list"

record placeholder =
  key :: string
  validate_data :: "template_data \<Rightarrow> string list"
  create_clip :: "template_data \<Rightarrow> error + clip"

text \<open>Decimal digits of a number, as an f-string prints it.\<close>

fun str_nat :: "nat \<Rightarrow> string" where
  "str_nat n = (if n < 10 then [char_of (48 + n)]
                else str_nat (n div 10) @ [char_of (48 + n mod 10)])"

declare str_nat.simps [simp del]

definition str_int :: "int \<Rightarrow> string" where
  "str_int i = (if i < 0 then CHR ''-'' # str_nat (nat (- i)) else str_nat (nat i))"

text \<open>\<open>PlaceholderText\<close> on string data, with the attributes that reach the clip
  record. When the key is absent and the placeholder is optional, \<open>create_clip\<close> sets
  \<open>text\<close> only and then reads \<open>font_size\<close>, which has no value on that path
  (the text of the \<open>UnboundLocalError\<close> is that of Python 3.11 and later).\<close>

record text_placeholder =
  tp_key :: string
  tp_duration :: real
  tp_start_time :: real
  tp_max_length :: "int option"
  tp_required :: bool

definition PlaceholderText_validate_data :: "text_placeholder \<Rightarrow> template_data \<Rightarrow> string list" where
  "PlaceholderText_validate_data p data =
     (case map_of data (tp_key p) of
        None \<Rightarrow> (if tp_required p then [''Missing required placeholder: '' @ tp_key p] else [])
      | Some text \<Rightarrow>
          (case tp_max_length p of
             None \<Rightarrow> []
           | Some m \<Rightarrow>
               if m \<noteq> 0 \<and> int (length text) > m
               then [''Text for '' @ tp_key p @ '' exceeds maximum length '' @ str_int m]
               else []))"

definition PlaceholderText_create_clip :: "text_placeholder \<Rightarrow> template_data \<Rightarrow> error + clip" where
  "PlaceholderText_create_clip p data =
     (case map_of data (tp_key p) of
        None \<Rightarrow>
          (if tp_required p
           then Inl (ValueError (''Missing required placeholder data: '' @ tp_key p))
           else Inl (UnboundLocalError
                  (''cannot access local variable '' @ [CHR 0x27] @ ''font_size'' @ [CHR 0x27]
                   @ '' where it is not associated with a value'')))
      | Some text \<Rightarrow>
          Inr \<lparr>clip_id = 0, clip_class = TextClip, start_time = tp_start_time p,
               duration = Some (tp_duration p), clip_name = Some (tp_key p @ ''_text''),
               content = text\<rparr>)"

definition PlaceholderText :: "text_placeholder \<Rightarrow> placeholder" where
  "PlaceholderText p =
     \<lparr>key = tp_key p, validate_data = PlaceholderText_validate_data p,
      create_clip = PlaceholderText_create_clip p\<rparr>"

text \<open>\<open>VideoTemplate\<close>: the base timeline, \<open>_placeholders\<close> and
  \<open>_placeholder_positions\<close>; \<open>__init__\<close> and \<open>add_placeholder\<close>. Reading
  \<open>.clips\<close> of the \<open>None\<close> that \<open>get_track\<close> returns raises
  \<open>AttributeError\<close>, after the placeholder has been stored.\<close>

record video_template =
  template_timeline :: "ref timeline"
  placeholders :: "(string \<times> placeholder) list"
  placeholder_positions :: "(string \<times> int \<times> int) list"

definition VideoTemplate :: "ref timeline \<Rightarrow> video_template" where
  "VideoTemplate tln =
     \<lparr>template_timeline = tln, placeholders = [], placeholder_positions = []\<rparr>"

definition add_placeholder ::
  "store \<Rightarrow> video_template \<Rightarrow> placeholder \<Rightarrow> int \<Rightarrow> int option
     \<Rightarrow> error option \<times> video_template" where
  "add_placeholder s tpl ph track_index clip_index =
     (let tpl1 = tpl\<lparr>placeholders := AList.update (key ph) ph (placeholders tpl)\<rparr>
      in case clip_index of
           Some ci \<Rightarrow>
             (None, tpl1\<lparr>placeholder_positions :=
                      AList.update (key ph) (track_index, ci) (placeholder_positions tpl1)\<rparr>)
         | None \<Rightarrow>
             (case get_track (template_timeline tpl1) track_index of
                Inl e \<Rightarrow> (Some e, tpl1)
              | Inr None \<Rightarrow>
                  (Some (AttributeError ([CHR 0x27] @ ''NoneType'' @ [CHR 0x27]
                           @ '' object has no attribute '' @ [CHR 0x27] @ ''clips''
                           @ [CHR 0x27])), tpl1)
              | Inr (Some r) \<Rightarrow>
                  (None, tpl1\<lparr>placeholder_positions :=
                      AList.update (key ph) (track_index, int (length (clips (cells s ! r))))
                        (placeholder_positions tpl1)\<rparr>)))"

text \<open>
  \<open>copy.deepcopy\<close> of a timeline. Every track object reached gets one new object,
  the memo sending a track met again to the copy already made. The clips of a track
  are copied with it: the copy of a clip has the attributes of the clip and a new
  identity. The copy of the clip with identity \<open>i\<close> is given the identity \<open>n + i\<close>,
  \<open>n\<close> being \<open>next_id\<close> at the call: it is not in use, two clip objects get two
  copies, and a clip object listed in two places is one object in the copy, as the
  memo has it. The transitions of a track are not told apart by identity.
\<close>

definition copy_clip :: "nat \<Rightarrow> clip \<Rightarrow> clip" where
  "copy_clip n c = c\<lparr>clip_id := n + clip_id c\<rparr>"

definition copy_track :: "nat \<Rightarrow> track \<Rightarrow> track" where
  "copy_track n tr = tr\<lparr>clips := map (copy_clip n) (clips tr)\<rparr>"

fun deepcopy_tracks ::
  "nat \<Rightarrow> track list \<Rightarrow> (ref \<times> ref) list \<Rightarrow> ref list \<Rightarrow> track list \<times> ref list" where
  "deepcopy_tracks n h memo [] = (h, [])"
| "deepcopy_tracks n h memo (r # rs) =
     (case map_of memo r of
        Some r' \<Rightarrow> (case deepcopy_tracks n h memo rs of (h', rs') \<Rightarrow> (h', r' # rs'))
      | None \<Rightarrow>
          (case deepcopy_tracks n (h @ [copy_track n (h ! r)]) ((r, length h) # memo) rs of
             (h', rs') \<Rightarrow> (h', length h # rs')))"

definition deepcopy :: "store \<Rightarrow> ref timeline \<Rightarrow> store \<times> ref timeline" where
  "deepcopy s tln =
     (case deepcopy_tracks (next_id s) (cells s) [] (tracks tln) of
        (h', rs) \<Rightarrow> (\<lparr>cells = h', next_id = next_id s + next_id s\<rparr>, tln\<lparr>tracks := rs\<rparr>))"

text \<open>\<open>sep.join(items)\<close>.\<close>

fun join :: "string \<Rightarrow> string list \<Rightarrow> string" where
  "join sep [] = []"
| "join sep [x] = x"
| "join sep (x # y # ys) = x @ sep @ join sep (y # ys)"

text \<open>\<open>VideoTemplate.validate_data\<close>, which is also the first loop of \<open>fill\<close>.\<close>

definition template_validate_data :: "video_template \<Rightarrow> template_data \<Rightarrow> string list" where
  "template_validate_data tpl data =
     concat (map (\<lambda>p. validate_data (snd p) data) (placeholders tpl))"

text \<open>The second loop of \<open>fill\<close>, over \<open>_placeholders.items()\<close>. The clip that
  \<open>create_clip\<close> returns is a new object. A \<open>Track\<close> has \<open>__len__\<close>, so
  \<open>if track\<close> is false for a track without clips as well as for \<open>None\<close>.\<close>

fun fill_loop ::
  "store \<Rightarrow> ref timeline \<Rightarrow> (string \<times> int \<times> int) list \<Rightarrow> template_data
     \<Rightarrow> (string \<times> placeholder) list \<Rightarrow> error option \<times> store" where
  "fill_loop s filled pos data [] = (None, s)"
| "fill_loop s filled pos data ((k, ph) # rest) =
     (case map_of pos k of
        None \<Rightarrow> fill_loop s filled pos data rest
      | Some (track_index, clip_index) \<Rightarrow>
          (case create_clip ph data of
             Inl e \<Rightarrow> (Some e, s)
           | Inr made \<Rightarrow>
               (let actual_clip = made\<lparr>clip_id := next_id s\<rparr>;
                    s1 = s\<lparr>next_id := Suc (next_id s)\<rparr>
                in case get_track filled track_index of
                     Inl e \<Rightarrow> (Some e, s1)
                   | Inr None \<Rightarrow> fill_loop s1 filled pos data rest
                   | Inr (Some r) \<Rightarrow>
                       if clips (cells s1 ! r) \<noteq> []
                          \<and> clip_index < int (length (clips (cells s1 ! r)))
                       then (case py_setitem (clips (cells s1 ! r)) clip_index actual_clip of
                               Inl e \<Rightarrow> (Some e, s1)
                             | Inr cs \<Rightarrow>
                                 fill_loop
                                   (s1\<lparr>cells := (cells s1)[r := (cells s1 ! r)\<lparr>clips := cs\<rparr>]\<rparr>)
                                   filled pos data rest)
                       else fill_loop s1 filled pos data rest)))"

text \<open>\<open>VideoTemplate.fill\<close>: the result and the store afterwards.\<close>

definition fill ::
  "store \<Rightarrow> video_template \<Rightarrow> template_data \<Rightarrow> (error + ref timeline) \<times> store" where
  "fill s tpl data =
     (let all_errors = template_validate_data tpl data
      in if all_errors \<noteq> []
         then (Inl (ValueError (''Template validation failed: '' @ join ''; '' all_errors)), s)
         else (case deepcopy s (template_timeline tpl) of
                 (s1, filled) \<Rightarrow>
                   (case fill_loop s1 filled (placeholder_positions tpl) data (placeholders tpl) of
                      (Some e, s2) \<Rightarrow> (Inl e, s2)
                    | (None, s2) \<Rightarrow> (Inr filled, s2))))"

text \<open>\<open>VideoTemplate.create_simple_text_template\<close>. Its first argument, the name
  of the template, goes to \<open>info\<close>, which \<open>add_placeholder\<close> and \<open>fill\<close> never
  read and the model leaves out.\<close>

definition create_simple_text_template ::
  "store \<Rightarrow> string \<Rightarrow> real \<Rightarrow> int \<times> int \<Rightarrow> store \<times> error option \<times> video_template" where
  "create_simple_text_template s text_key dur resolution =
     (case add_track s (Timeline (fst resolution) (snd resolution)) None COMPOSITE of
        (s1, tln, track) \<Rightarrow>
          (case add_placeholder s1 (VideoTemplate tln)
                  (PlaceholderText \<lparr>tp_key = text_key, tp_duration = dur, tp_start_time = 0,
                                    tp_max_length = None, tp_required = True\<rparr>) 0 None of
             (e, tpl) \<Rightarrow> (s1, e, tpl)))"

text \<open>
  What the second loop leaves at one position. \<open>unnamed\<close> forgets the identity of a
  clip and keeps its attributes. \<open>slot\<close> is the position that \<open>xs[ci] = v\<close> writes.
  \<open>placed\<close> is the effect of one placeholder on position \<open>p\<close> of the track listed at
  \<open>ti\<close> in \<open>refs\<close>, a track with \<open>len\<close> clips: the clip of the placeholder when
  it is bound to that position of that track object, through whatever index the
  object is listed at, and the position lies in the track; the clip already there
  otherwise. \<open>clip_after\<close> runs through the placeholders in the order of the loop,
  so the last one bound to a position decides; \<open>filled_track\<close> does this for every
  position of a track of the base.
\<close>

definition unnamed :: "clip \<Rightarrow> clip" where
  "unnamed c = c\<lparr>clip_id := 0\<rparr>"

definition unnamed_track :: "track \<Rightarrow> track" where
  "unnamed_track tr = tr\<lparr>clips := map unnamed (clips tr)\<rparr>"

definition slot :: "nat \<Rightarrow> int \<Rightarrow> nat" where
  "slot len ci = (if 0 \<le> ci then nat ci else nat (int len + ci))"

definition placed ::
  "ref list \<Rightarrow> (string \<times> int \<times> int) list \<Rightarrow> template_data \<Rightarrow> nat \<Rightarrow> nat \<Rightarrow> nat \<Rightarrow> clip
     \<Rightarrow> string \<times> placeholder \<Rightarrow> clip" where
  "placed refs pos data ti len p c kp =
     (case map_of pos (fst kp) of
        None \<Rightarrow> c
      | Some (t, ci) \<Rightarrow>
          (case create_clip (snd kp) data of
             Inl e \<Rightarrow> c
           | Inr made \<Rightarrow>
               if 0 \<le> t \<and> t < int (length refs) \<and> refs ! nat t = refs ! ti
                  \<and> - int len \<le> ci \<and> ci < int len \<and> slot len ci = p
               then unnamed made else c))"

definition clip_after ::
  "video_template \<Rightarrow> template_data \<Rightarrow> nat \<Rightarrow> nat \<Rightarrow> nat \<Rightarrow> clip \<Rightarrow> clip" where
  "clip_after tpl data ti len p c =
     foldl (placed (tracks (template_timeline tpl)) (placeholder_positions tpl) data ti len p)
       c (placeholders tpl)"

definition filled_track :: "video_template \<Rightarrow> template_data \<Rightarrow> nat \<Rightarrow> track \<Rightarrow> track" where
  "filled_track tpl data ti tr =
     tr\<lparr>clips := map (\<lambda>p. clip_after tpl data ti (length (clips tr)) p (unnamed (clips tr ! p)))
                    [0..<length (clips tr)]\<rparr>"

text \<open>
  The second loop raises when \<open>create_clip\<close> does and when an index lies below the
  start of its track. \<open>fillable\<close> says that neither happens: every placeholder that
  has a position makes its clip, and an index that passes the guard of the loop is not
  below \<open>-len\<close>.
\<close>

definition fillable :: "store \<Rightarrow> video_template \<Rightarrow> template_data \<Rightarrow> bool" where
  "fillable s tpl data =
     list_all
       (\<lambda>kp. case map_of (placeholder_positions tpl) (fst kp) of
                None \<Rightarrow> True
              | Some (t, ci) \<Rightarrow>
                  (case create_clip (snd kp) data of Inl e \<Rightarrow> False | Inr made \<Rightarrow> True)
                  \<and> (case get_track (template_timeline tpl) t of
                       Inr (Some r) \<Rightarrow>
                         ci < int (length (clips (cells s ! r)))
                           \<longrightarrow> - int (length (clips (cells s ! r))) \<le> ci
                     | _ \<Rightarrow> True))
       (placeholders tpl)"

text \<open>One turn of the second loop of \<open>fill\<close>: either it assigns into a track, or it
  leaves every track as it was.\<close>

definition assigns ::
  "store \<Rightarrow> ref timeline \<Rightarrow> (string \<times> int \<times> int) list \<Rightarrow> template_data
     \<Rightarrow> string \<Rightarrow> placeholder \<Rightarrow> int \<Rightarrow> int \<Rightarrow> clip \<Rightarrow> bool" where
  "assigns s filled pos data k ph t ci made =
     (map_of pos k = Some (t, ci) \<and> create_clip ph data = Inr made
      \<and> 0 \<le> t \<and> t < int (length (tracks filled))
      \<and> - int (length (clips (cells s ! (tracks filled ! nat t)))) \<le> ci
      \<and> ci < int (length (clips (cells s ! (tracks filled ! nat t)))))"

definition assigned :: "store \<Rightarrow> ref timeline \<Rightarrow> int \<Rightarrow> int \<Rightarrow> clip \<Rightarrow> store" where
  "assigned s filled t ci made =
     s\<lparr>next_id := Suc (next_id s),
       cells := (cells s)[tracks filled ! nat t :=
                 (cells s ! (tracks filled ! nat t))\<lparr>clips :=
                    (clips (cells s ! (tracks filled ! nat t)))
                      [slot (length (clips (cells s ! (tracks filled ! nat t)))) ci :=
                         made\<lparr>clip_id := next_id s\<rparr>]\<rparr>]\<rparr>"

text \<open>\<open>copy.deepcopy\<close>. \<open>copied n nb h memo\<close>: the store had \<open>nb\<close> tracks at the
  call, and \<open>memo\<close> sends tracks of that store to their copies, one copy for each,
  all of them new.\<close>

definition copied :: "nat \<Rightarrow> nat \<Rightarrow> track list \<Rightarrow> (ref \<times> ref) list \<Rightarrow> bool" where
  "copied n nb h memo =
     (nb \<le> length h \<and> distinct (map fst memo) \<and> distinct (map snd memo)
      \<and> (\<forall>ab \<in> set memo. fst ab < nb \<and> nb \<le> snd ab \<and> snd ab < length h
             \<and> h ! snd ab = copy_track n (h ! fst ab)))"

text \<open>Concrete templates over a track that holds one clip: the placeholder \<open>title\<close>
  bound to that clip, and bound to index \<open>3\<close>, where the track has no clip; an
  optional placeholder \<open>subtitle\<close> bound to the clip. And the template that
  \<open>create_simple_text_template\<close> builds.\<close>

definition one_clip :: store where
  "one_clip =
     \<lparr>cells = [(Track COMPOSITE None True)\<lparr>clips := [mk_clip 1 TextClip 0 (Some 5)]\<rparr>],
      next_id = 2\<rparr>"

definition title_placeholder :: placeholder where
  "title_placeholder =
     PlaceholderText \<lparr>tp_key = ''title'', tp_duration = 5, tp_start_time = 0,
                      tp_max_length = None, tp_required = True\<rparr>"

definition title_slide :: video_template where
  "title_slide =
     snd (add_placeholder one_clip (VideoTemplate ((Timeline 1920 1080)\<lparr>tracks := [0]\<rparr>))
            title_placeholder 0 (Some 0))"

definition stale_slide :: video_template where
  "stale_slide =
     snd (add_placeholder one_clip (VideoTemplate ((Timeline 1920 1080)\<lparr>tracks := [0]\<rparr>))
            title_placeholder 0 (Some 3))"

definition subtitle_slide :: video_template where
  "subtitle_slide =
     snd (add_placeholder one_clip (VideoTemplate ((Timeline 1920 1080)\<lparr>tracks := [0]\<rparr>))
            (PlaceholderText \<lparr>tp_key = ''subtitle'', tp_duration = 5, tp_start_time = 0,
                              tp_max_length = None, tp_required = False\<rparr>) 0 (Some 0))"

definition hello :: template_data where
  "hello = [(''title'', ''Hello'')]"

definition simple_text :: "store \<times> error option \<times> video_template" where
  "simple_text =
     create_simple_text_template \<lparr>cells = [], next_id = 0\<rparr> ''title'' 5 (1920, 1080)"

section \<open>The render queue (pipeline/render_queue.py)\<close>

text \<open>
  The model is single-threaded: it covers the queue as \<open>run(QueueMode.SEQUENTIAL)\<close>
  drives it, so the lock is not represented. A \<open>Renderer\<close> is its method
  \<open>render(timeline, output_path, options)\<close>: the function from the arguments to what
  the call raised (\<open>None\<close> when it returned). The progress callback is a function
  of the job it is handed, as the job is at the call, to what the call raised. A
  renderer and a callback read their arguments; neither assigns to the job.
  \<open>template_data\<close> and \<open>metadata\<close> are carried along by the source and never read
  by the queue.
  Timestamps are microseconds since the epoch.
\<close>

datatype JobStatus = PENDING | RUNNING | COMPLETED | FAILED | CANCELLED

typedecl render_options

type_synonym renderer =
  "track timeline \<Rightarrow> string \<Rightarrow> render_options option \<Rightarrow> error option"

record render_job =
  job_id :: string
  job_timeline :: "track timeline"
  output_path :: string
  renderer :: renderer
  options :: "render_options option"
  status :: JobStatus
  created_at :: int
  started_at :: "int option"
  completed_at :: "int option"
  error_message :: "string option"
  progress :: real

text \<open>\<open>RenderJob.duration\<close>: \<open>total_seconds()\<close> of the difference when both
  timestamps are set.\<close>

definition job_duration :: "render_job \<Rightarrow> real option" where
  "job_duration j =
     (case (started_at j, completed_at j) of
        (Some s, Some c) \<Rightarrow> Some (real_of_int (c - s) / 1000000)
      | _ \<Rightarrow> None)"

text \<open>\<open>RenderJob.is_finished\<close>.\<close>

definition is_finished :: "render_job \<Rightarrow> bool" where
  "is_finished j = (status j \<in> set [COMPLETED, FAILED, CANCELLED])"

text \<open>The queue: \<open>_jobs\<close> is the dictionary from job id to job, \<open>_job_order\<close> the
  list of ids in submission order.\<close>

record render_queue =
  default_renderer :: "renderer option"
  progress_callback :: "(render_job \<Rightarrow> error option) option"
  jobs :: "(string \<times> render_job) list"
  job_order :: "string list"
  running :: bool
  cancelled :: bool

text \<open>
  What the queue reads from outside: the clock and the generator of identifiers. The
  \<open>n\<close>-th call of \<open>datetime.now()\<close> returns \<open>now env n\<close>, the \<open>n\<close>-th call of
  \<open>str(uuid.uuid4())\<close> returns \<open>uuid4 env n\<close>; the world counts the calls made so
  far and records, in order, the job whose \<open>render\<close> was called.
\<close>

record environment =
  now :: "nat \<Rightarrow> int"
  uuid4 :: "nat \<Rightarrow> string"

record world =
  clock_reads :: nat
  uuid_draws :: nat
  render_calls :: "string list"

definition datetime_now :: "environment \<Rightarrow> world \<Rightarrow> int \<times> world" where
  "datetime_now env w = (now env (clock_reads w), w\<lparr>clock_reads := Suc (clock_reads w)\<rparr>)"

definition uuid_uuid4 :: "environment \<Rightarrow> world \<Rightarrow> string \<times> world" where
  "uuid_uuid4 env w = (uuid4 env (uuid_draws w), w\<lparr>uuid_draws := Suc (uuid_draws w)\<rparr>)"

text \<open>\<open>RenderQueue.__init__\<close>.\<close>

definition RenderQueue ::
  "renderer option \<Rightarrow> (render_job \<Rightarrow> error option) option \<Rightarrow> render_queue" where
  "RenderQueue dr cb =
     \<lparr>default_renderer = dr, progress_callback = cb, jobs = [], job_order = [],
      running = False, cancelled = False\<rparr>"

text \<open>The arguments of one \<open>add_job\<close> call.\<close>

record submission =
  sub_timeline :: "track timeline"
  sub_output_path :: string
  sub_renderer :: "renderer option"
  sub_options :: "render_options option"
  sub_job_id :: "string option"

text \<open>\<open>RenderQueue.add_job\<close>: the returned id or the exception, the world and the
  queue afterwards.\<close>

definition add_job ::
  "environment \<Rightarrow> world \<Rightarrow> render_queue \<Rightarrow> submission
     \<Rightarrow> (error + string) \<times> world \<times> render_queue" where
  "add_job env w q s =
     (let r = (case sub_renderer s of None \<Rightarrow> default_renderer q | Some r \<Rightarrow> Some r)
      in case r of
           None \<Rightarrow> (Inl (ValueError ''No renderer provided and no default renderer set''), w, q)
         | Some rd \<Rightarrow>
             let (jid, w1) = (case sub_job_id s of None \<Rightarrow> uuid_uuid4 env w | Some i \<Rightarrow> (i, w));
                 (t, w2) = datetime_now env w1;
                 job = \<lparr>job_id = jid, job_timeline = sub_timeline s,
                        output_path = sub_output_path s, renderer = rd,
                        options = sub_options s, status = PENDING, created_at = t,
                        started_at = None, completed_at = None, error_message = None,
                        progress = 0\<rparr>
             in (Inr jid, w2,
                 q\<lparr>jobs := AList.update jid job (jobs q), job_order := job_order q @ [jid]\<rparr>))"

text \<open>A job object is reached through its key in \<open>_jobs\<close>; assigning to its
  attributes changes the entry stored under that key.\<close>

definition mutate_job ::
  "string \<Rightarrow> (render_job \<Rightarrow> render_job) \<Rightarrow> render_queue \<Rightarrow> render_queue" where
  "mutate_job k f q = q\<lparr>jobs := AList.map_entry k f (jobs q)\<rparr>"

text \<open>\<open>RenderQueue.remove_job\<close>; \<open>list.remove\<close> takes out the first occurrence.\<close>

definition remove_job :: "render_queue \<Rightarrow> string \<Rightarrow> bool \<times> render_queue" where
  "remove_job q k =
     (case map_of (jobs q) k of
        None \<Rightarrow> (False, q)
      | Some job \<Rightarrow>
          let q1 = (if status job = RUNNING
                    then mutate_job k (\<lambda>j. j\<lparr>status := CANCELLED\<rparr>) q else q);
              q2 = q1\<lparr>jobs := AList.delete k (jobs q1)\<rparr>;
              q3 = (if k \<in> set (job_order q2)
                    then q2\<lparr>job_order := remove1 k (job_order q2)\<rparr> else q2)
          in (True, q3))"

text \<open>\<open>RenderQueue.get_job\<close>.\<close>

definition get_job :: "render_queue \<Rightarrow> string \<Rightarrow> render_job option" where
  "get_job q k = map_of (jobs q) k"

text \<open>\<open>RenderQueue.list_jobs\<close>: the jobs in the order of \<open>_job_order\<close>, one
  for every id listed that is a key of \<open>_jobs\<close>, then the filter on the status.\<close>

definition list_jobs :: "render_queue \<Rightarrow> JobStatus option \<Rightarrow> render_job list" where
  "list_jobs q st =
     (let js = concat (map (\<lambda>k. case map_of (jobs q) k of None \<Rightarrow> [] | Some j \<Rightarrow> [j])
                         (job_order q))
      in case st of None \<Rightarrow> js | Some s \<Rightarrow> filter (\<lambda>j. status j = s) js)"

text \<open>\<open>RenderQueue.get_stats\<close>. The filter on the completed jobs tests
  \<open>j.duration\<close> for truth: \<open>None\<close> and \<open>0.0\<close> are both false in Python.\<close>

record queue_stats =
  total_jobs :: nat
  pending :: nat
  running_jobs :: nat
  completed :: nat
  failed :: nat
  cancelled_jobs :: nat
  queue_running :: bool
  avg_duration :: "real option"

definition count_status :: "render_job list \<Rightarrow> JobStatus \<Rightarrow> nat" where
  "count_status js s = length (filter (\<lambda>j. status j = s) js)"

definition truthy :: "real option \<Rightarrow> bool" where
  "truthy d = (case d of None \<Rightarrow> False | Some x \<Rightarrow> x \<noteq> 0)"

definition get_stats :: "render_queue \<Rightarrow> queue_stats" where
  "get_stats q =
     (let js = map snd (jobs q);
          completed_jobs = filter (\<lambda>j. status j = COMPLETED \<and> truthy (job_duration j)) js
      in \<lparr>total_jobs = length js,
          pending = count_status js PENDING,
          running_jobs = count_status js RUNNING,
          completed = count_status js COMPLETED,
          failed = count_status js FAILED,
          cancelled_jobs = count_status js CANCELLED,
          queue_running = running q,
          avg_duration =
            (if completed_jobs \<noteq> []
             then Some (sum_list (map (\<lambda>j. the (job_duration j)) completed_jobs)
                        / real (length completed_jobs))
             else None)\<rparr>)"

text \<open>\<open>RenderQueue._get_next_pending_job\<close>: the loop over \<open>_job_order\<close>; the job
  found is returned as its key.\<close>

fun get_next_pending_loop :: "(string \<times> render_job) list \<Rightarrow> string list \<Rightarrow> string option" where
  "get_next_pending_loop js [] = None"
| "get_next_pending_loop js (k # ks) =
     (case map_of js k of
        None \<Rightarrow> get_next_pending_loop js ks
      | Some job \<Rightarrow> if status job = PENDING then Some k else get_next_pending_loop js ks)"

definition get_next_pending_job :: "render_queue \<Rightarrow> string option" where
  "get_next_pending_job q = get_next_pending_loop (jobs q) (job_order q)"

text \<open>\<open>JobProgressCallback\<close>. \<open>call_back\<close> is \<open>if self.callback:
  self.callback(job)\<close> for the job stored under \<open>k\<close>; \<open>on_job_started\<close> and
  \<open>on_job_completed\<close> are this call, \<open>on_job_failed\<close> first assigns
  \<open>job.error_message\<close>. Each returns what the callback raised.\<close>

definition call_back :: "render_queue \<Rightarrow> string \<Rightarrow> error option" where
  "call_back q k =
     (case progress_callback q of
        None \<Rightarrow> None
      | Some cb \<Rightarrow> (case map_of (jobs q) k of None \<Rightarrow> None | Some job \<Rightarrow> cb job))"

definition on_job_started :: "render_queue \<Rightarrow> string \<Rightarrow> error option" where
  "on_job_started q k = call_back q k"

definition on_job_completed :: "render_queue \<Rightarrow> string \<Rightarrow> error option" where
  "on_job_completed q k = call_back q k"

definition on_job_failed ::
  "render_queue \<Rightarrow> string \<Rightarrow> error \<Rightarrow> error option \<times> render_queue" where
  "on_job_failed q k e =
     (let q1 = mutate_job k (\<lambda>j. j\<lparr>error_message := Some (str e)\<rparr>) q
      in (call_back q1 k, q1))"

text \<open>\<open>RenderQueue._handle_job_error\<close>: what its call of \<open>on_job_failed\<close> raises
  leaves it.\<close>

definition handle_job_error ::
  "environment \<Rightarrow> world \<Rightarrow> render_queue \<Rightarrow> string \<Rightarrow> error
     \<Rightarrow> error option \<times> world \<times> render_queue" where
  "handle_job_error env w q k e =
     (let (t, w1) = datetime_now env w;
          q1 = mutate_job k (\<lambda>j. j\<lparr>status := FAILED, completed_at := Some t,
                                     error_message := Some (str e)\<rparr>) q;
          (raised, q2) = on_job_failed q1 k e
      in (raised, w1, q2))"

text \<open>The call \<open>job.renderer.render(job.timeline, job.output_path, job.options)\<close>.\<close>

definition render_of :: "render_job \<Rightarrow> error option" where
  "render_of job = renderer job (job_timeline job) (output_path job) (options job)"

text \<open>\<open>RenderQueue._process_job\<close>. \<open>process_job_try\<close> is the body of the
  \<open>try\<close>: it ends with the exception it raised, if any, be it from a callback or
  from the renderer. \<open>process_job\<close> adds the handler \<open>except Exception\<close>, whose
  own exception is not caught; what it returns is what leaves the routine.\<close>

definition process_job_try ::
  "environment \<Rightarrow> world \<Rightarrow> render_queue \<Rightarrow> string \<Rightarrow> render_job
     \<Rightarrow> error option \<times> world \<times> render_queue" where
  "process_job_try env w q k job =
     (let (t1, w1) = datetime_now env w;
          q1 = mutate_job k (\<lambda>j. j\<lparr>status := RUNNING, started_at := Some t1\<rparr>) q
      in case on_job_started q1 k of
           Some e \<Rightarrow> (Some e, w1, q1)
         | None \<Rightarrow>
             (let w2 = w1\<lparr>render_calls := render_calls w1 @ [k]\<rparr>
              in case render_of job of
                   Some e \<Rightarrow> (Some e, w2, q1)
                 | None \<Rightarrow>
                     let (t2, w3) = datetime_now env w2;
                         q2 = mutate_job k (\<lambda>j. j\<lparr>status := COMPLETED,
                                                   completed_at := Some t2,
                                                   progress := 100\<rparr>) q1
                     in (on_job_completed q2 k, w3, q2)))"

definition process_job ::
  "environment \<Rightarrow> world \<Rightarrow> render_queue \<Rightarrow> string \<Rightarrow> error option \<times> world \<times> render_queue" where
  "process_job env w q k =
     (case map_of (jobs q) k of
        None \<Rightarrow> (None, w, q)
      | Some job \<Rightarrow>
          (case process_job_try env w q k job of
             (None, w1, q1) \<Rightarrow> (None, w1, q1)
           | (Some e, w1, q1) \<Rightarrow>
               if is_Exception e then handle_job_error env w1 q1 k e
               else (Some e, w1, q1)))"

text \<open>The pending jobs that the loop of \<open>_run_sequential\<close> can still reach: their
  number goes down with every job processed, which is why the loop ends.\<close>

definition is_pending :: "render_queue \<Rightarrow> string \<Rightarrow> bool" where
  "is_pending q k =
     (case map_of (jobs q) k of None \<Rightarrow> False | Some j \<Rightarrow> status j = PENDING)"

definition pending_in_order :: "render_queue \<Rightarrow> nat" where
  "pending_in_order q = length (filter (is_pending q) (job_order q))"

text \<open>A callback that never raises, or none. Then \<open>settled j j'\<close> is what
  \<open>_process_job\<close> makes of a job \<open>j\<close> whose renderer returned or raised an
  exception that was caught.\<close>

definition quiet :: "render_queue \<Rightarrow> bool" where
  "quiet q = (case progress_callback q of None \<Rightarrow> True | Some cb \<Rightarrow> \<forall>j. cb j = None)"

definition settled :: "render_job \<Rightarrow> render_job \<Rightarrow> bool" where
  "settled j j' =
     (started_at j' \<noteq> None \<and> completed_at j' \<noteq> None \<and>
      (case render_of j of
         None \<Rightarrow> j' = j\<lparr>status := COMPLETED, started_at := started_at j',
                          completed_at := completed_at j', progress := 100\<rparr>
       | Some e \<Rightarrow> j' = j\<lparr>status := FAILED, started_at := started_at j',
                          completed_at := completed_at j',
                          error_message := Some (str e)\<rparr>))"

subsection \<open>The loop of \<open>_run_sequential\<close>\<close>

text \<open>The loop runs until the queue is cancelled, no pending job is left, or an
  exception leaves \<open>_process_job\<close>. A round that returns has taken one job out of the
  pending ones, so \<open>pending_in_order\<close> is a measure for it; the facts about one
  round come first.\<close>

lemma get_next_pending_loop_Some:
  "get_next_pending_loop js ks = Some k \<Longrightarrow>
     k \<in> set ks \<and> (\<exists>j. map_of js k = Some j \<and> status j = PENDING)"
  by (induction ks) (auto split: option.splits if_splits)

lemma map_of_mutate_job:
  "map_of (jobs (mutate_job k f q)) =
     (map_of (jobs q))(k := map_option f (map_of (jobs q) k))"
  by (auto simp: mutate_job_def map_of_map_entry fun_eq_iff split: option.splits)

lemma mutate_job_fields [simp]:
  "job_order (mutate_job k f q) = job_order q"
  "cancelled (mutate_job k f q) = cancelled q"
  "running (mutate_job k f q) = running q"
  "default_renderer (mutate_job k f q) = default_renderer q"
  "progress_callback (mutate_job k f q) = progress_callback q"
  by (simp_all add: mutate_job_def)

lemma map_fst_map_entry: "map fst (AList.map_entry k f xs) = map fst xs"
  by (induction xs) auto

lemma keys_mutate_job [simp]: "map fst (jobs (mutate_job k f q)) = map fst (jobs q)"
  by (simp add: mutate_job_def map_fst_map_entry)

lemma process_job_settles:
  assumes "map_of (jobs q) k = Some j"
    and "process_job env w q k = (None, w1, q1)"
  shows "job_order q1 = job_order q
       \<and> (\<exists>j'. status j' \<noteq> PENDING \<and> map_of (jobs q1) = (map_of (jobs q))(k \<mapsto> j'))"
  using assms
  by (auto simp: process_job_def process_job_try_def handle_job_error_def on_job_failed_def
      datetime_now_def map_of_mutate_job Let_def fun_eq_iff
      split: option.splits if_splits prod.splits)

lemma pending_decreases:
  assumes "k \<in> set ks" and "m k = Some j" and "status j = PENDING"
    and "status j' \<noteq> PENDING"
  shows "length (filter (\<lambda>x. case (m(k \<mapsto> j')) x of None \<Rightarrow> False
                              | Some a \<Rightarrow> status a = PENDING) ks)
       < length (filter (\<lambda>x. case m x of None \<Rightarrow> False | Some a \<Rightarrow> status a = PENDING) ks)"
proof -
  let ?P = "\<lambda>x. case m x of None \<Rightarrow> False | Some a \<Rightarrow> status a = PENDING"
  have eq: "filter (\<lambda>x. case (m(k \<mapsto> j')) x of None \<Rightarrow> False
                              | Some a \<Rightarrow> status a = PENDING) ks
          = filter (\<lambda>x. x \<noteq> k) (filter ?P ks)"
    using assms(4) by (auto intro!: filter_cong)
  have "k \<in> set (filter ?P ks)" using assms by simp
  then have "length (filter (\<lambda>x. x \<noteq> k) (filter ?P ks)) < length (filter ?P ks)"
    by (intro length_filter_less[where x = k]) auto
  then show ?thesis by (simp only: eq)
qed

lemma run_sequential_measure:
  assumes "get_next_pending_job q = Some k" and p: "process_job env w q k = (None, w1, q1)"
  shows "pending_in_order q1 < pending_in_order q"
proof -
  from assms obtain j where j: "k \<in> set (job_order q)" "map_of (jobs q) k = Some j"
      "status j = PENDING"
    using get_next_pending_loop_Some[of "jobs q" "job_order q" k]
    by (auto simp: get_next_pending_job_def)
  from process_job_settles[OF j(2) p] obtain j' where
    j': "job_order q1 = job_order q" "status j' \<noteq> PENDING"
        "map_of (jobs q1) = (map_of (jobs q))(k \<mapsto> j')" by blast
  show ?thesis
    using pending_decreases[of k "job_order q" "map_of (jobs q)" j j'] j j'(2)
    by (simp add: pending_in_order_def is_pending_def[abs_def] j'(1) j'(3))
qed

text \<open>\<open>RenderQueue._run_sequential\<close>. An exception that leaves \<open>_process_job\<close>
  leaves the loop too.\<close>

function run_sequential ::
  "environment \<Rightarrow> world \<Rightarrow> render_queue \<Rightarrow> error option \<times> world \<times> render_queue" where
  "run_sequential env w q =
     (if cancelled q then (None, w, q)
      else (case get_next_pending_job q of
              None \<Rightarrow> (None, w, q)
            | Some k \<Rightarrow>
                (case process_job env w q k of
                   (Some e, w1, q1) \<Rightarrow> (Some e, w1, q1)
                 | (None, w1, q1) \<Rightarrow> run_sequential env w1 q1)))"
  by pat_completeness auto
termination
  apply (relation "measure (\<lambda>(env, w, q). pending_in_order q)")
   apply simp
  apply (auto intro: run_sequential_measure[OF _ sym])
  done

declare run_sequential.simps [simp del]

text \<open>\<open>RenderQueue.run\<close> called with \<open>QueueMode.SEQUENTIAL\<close>; no executor exists
  in this mode, so the \<open>finally\<close> clause only clears \<open>_running\<close>.\<close>

definition run_SEQUENTIAL ::
  "environment \<Rightarrow> world \<Rightarrow> render_queue \<Rightarrow> error option \<times> world \<times> render_queue" where
  "run_SEQUENTIAL env w q =
     (if running q then (Some (RuntimeError ''Queue is already running''), w, q)
      else (case run_sequential env w (q\<lparr>running := True, cancelled := False\<rparr>) of
              (r, w1, q1) \<Rightarrow> (r, w1, q1\<lparr>running := False\<rparr>)))"

text \<open>A sequence of \<open>add_job\<close> calls, with the result of each call.\<close>

fun add_jobs ::
  "environment \<Rightarrow> world \<Rightarrow> render_queue \<Rightarrow> submission list
     \<Rightarrow> (error + string) list \<times> world \<times> render_queue" where
  "add_jobs env w q [] = ([], w, q)"
| "add_jobs env w q (s # ss) =
     (case add_job env w q s of
        (r, w1, q1) \<Rightarrow> (case add_jobs env w1 q1 ss of (rs, w2, q2) \<Rightarrow> (r # rs, w2, q2)))"

text \<open>A renderer that always succeeds: \<open>render\<close> returns whatever it is given.\<close>

definition always_succeeds :: "renderer \<Rightarrow> bool" where
  "always_succeeds r = (\<forall>tln p opts. r tln p opts = None)"

text \<open>A job whose \<open>render\<close> call returns or raises an \<open>Exception\<close>.\<close>

definition catchable :: "render_job \<Rightarrow> bool" where
  "catchable j = (case render_of j of None \<Rightarrow> True | Some e \<Rightarrow> is_Exception e)"

text \<open>A queue as a run of \<open>add_job\<close> calls with fresh ids leaves it: the order
  list is the list of keys and every job is pending.\<close>

definition all_pending_in_order :: "render_queue \<Rightarrow> bool" where
  "all_pending_in_order q =
     (job_order q = map fst (jobs q) \<and> list_all (\<lambda>p. status (snd p) = PENDING) (jobs q))"

text \<open>Sequences of \<open>add_job\<close> and \<open>remove_job\<close> calls. \<open>next_job_id\<close> is the
  id that an \<open>add_job\<close> call is about to use, and \<open>fresh_ids\<close> says that no
  \<open>add_job\<close> of the sequence uses an id that is in the order list at its turn.\<close>

datatype queue_op = AddJob submission | RemoveJob string

fun apply_queue_op ::
  "environment \<Rightarrow> world \<times> render_queue \<Rightarrow> queue_op \<Rightarrow> world \<times> render_queue" where
  "apply_queue_op env (w, q) (AddJob s) = snd (add_job env w q s)"
| "apply_queue_op env (w, q) (RemoveJob k) = (w, snd (remove_job q k))"

definition run_queue_ops ::
  "environment \<Rightarrow> world \<times> render_queue \<Rightarrow> queue_op list \<Rightarrow> world \<times> render_queue" where
  "run_queue_ops env wq ops = foldl (apply_queue_op env) wq ops"

definition next_job_id :: "environment \<Rightarrow> world \<Rightarrow> submission \<Rightarrow> string" where
  "next_job_id env w s =
     (case sub_job_id s of None \<Rightarrow> uuid4 env (uuid_draws w) | Some i \<Rightarrow> i)"

fun fresh_ids :: "environment \<Rightarrow> world \<times> render_queue \<Rightarrow> queue_op list \<Rightarrow> bool" where
  "fresh_ids env wq [] = True"
| "fresh_ids env (w, q) (AddJob s # ops) =
     (next_job_id env w s \<notin> set (job_order q)
      \<and> fresh_ids env (apply_queue_op env (w, q) (AddJob s)) ops)"
| "fresh_ids env wq (RemoveJob k # ops) =
     fresh_ids env (apply_queue_op env wq (RemoveJob k)) ops"

text \<open>The job ids of a queue are consistent: no id is listed twice, the dictionary
  has one entry per key, and the ids listed are exactly the keys.\<close>

definition queue_consistent :: "render_queue \<Rightarrow> bool" where
  "queue_consistent q =
     (distinct (job_order q) \<and> distinct (map fst (jobs q))
      \<and> set (job_order q) = fst ` set (jobs q))"

text \<open>Concrete clocks, renderers and queues.\<close>

definition env0 :: environment where
  "env0 = \<lparr>now = (\<lambda>n. 1000000 * int n), uuid4 = (\<lambda>n. replicate (Suc n) CHR ''u'')\<rparr>"

definition frozen_clock :: environment where
  "frozen_clock = \<lparr>now = (\<lambda>n. 0), uuid4 = (\<lambda>n. replicate (Suc n) CHR ''u'')\<rparr>"

definition w0 :: world where
  "w0 = \<lparr>clock_reads = 0, uuid_draws = 0, render_calls = []\<rparr>"

definition succeeding :: renderer where
  "succeeding = (\<lambda>tln p opts. None)"

definition raising :: "error \<Rightarrow> renderer" where
  "raising e = (\<lambda>tln p opts. Some e)"

definition submit :: "string \<Rightarrow> renderer \<Rightarrow> submission" where
  "submit k r =
     \<lparr>sub_timeline = Timeline 1920 1080, sub_output_path = k @ ''.mp4'',
      sub_renderer = Some r, sub_options = None, sub_job_id = Some k\<rparr>"

definition queued :: "environment \<Rightarrow> submission list \<Rightarrow> world \<times> render_queue" where
  "queued env subs = snd (add_jobs env w0 (RenderQueue None None) subs)"





definition five_jobs :: "(error + string) list \<times> world \<times> render_queue" where
  "five_jobs = add_jobs env0 w0 (RenderQueue (Some succeeding) None)
     (map (\<lambda>k. \<lparr>sub_timeline = Timeline 1920 1080, sub_output_path = k @ ''.mp4'',
                 sub_renderer = None, sub_options = None, sub_job_id = Some k\<rparr>)
        [''j1'', ''j2'', ''j3'', ''j4'', ''j5''])"

definition same_id_twice :: "world \<times> render_queue" where
  "same_id_twice = queued env0 [submit ''a'' succeeding, submit ''a'' succeeding]"

definition late_tick :: environment where
  "late_tick = \<lparr>now = (\<lambda>n. if n = 5 then 2000000 else 0),
                uuid4 = (\<lambda>n. replicate (Suc n) CHR ''u'')\<rparr>"

definition two_paces :: "world \<times> render_queue" where
  "two_paces = queued late_tick [submit ''a'' succeeding, submit ''b'' succeeding]"

definition instant_job :: "world \<times> render_queue" where
  "instant_job = queued frozen_clock [submit ''a'' succeeding]"

section \<open>Facts about the queue\<close>

lemmas queue_eval =
  queued_def add_job_def RenderQueue_def submit_def w0_def env0_def frozen_clock_def
  datetime_now_def uuid_uuid4_def Let_def succeeding_def raising_def
  run_SEQUENTIAL_def run_sequential.simps get_next_pending_job_def process_job_def
  process_job_try_def handle_job_error_def mutate_job_def render_of_def
  call_back_def on_job_started_def on_job_completed_def on_job_failed_def
  get_stats_def count_status_def job_duration_def truthy_def remove_job_def

lemma get_next_pending_loop_None:
  "get_next_pending_loop js ks = None \<Longrightarrow> k \<in> set ks \<Longrightarrow>
     (case map_of js k of None \<Rightarrow> True | Some j \<Rightarrow> status j \<noteq> PENDING)"
  by (induction ks) (auto split: option.splits if_splits)

lemma get_next_pending_loop_split:
  "get_next_pending_loop js ks = Some k \<Longrightarrow>
     \<exists>pre post. ks = pre @ k # post \<and>
       (\<forall>x \<in> set pre. case map_of js x of None \<Rightarrow> True | Some j \<Rightarrow> status j \<noteq> PENDING)"
proof (induction ks)
  case Nil
  then show ?case by simp
next
  case (Cons a ks)
  show ?case
  proof (cases "case map_of js a of None \<Rightarrow> False | Some j \<Rightarrow> status j = PENDING")
    case True
    with Cons.prems have "a = k" by (auto split: option.splits)
    then show ?thesis by (intro exI[of _ "[]"] exI[of _ ks]) simp
  next
    case False
    with Cons.prems have "get_next_pending_loop js ks = Some k"
      by (auto split: option.splits if_splits)
    from Cons.IH[OF this] obtain pre post where
      "ks = pre @ k # post"
      "\<forall>x \<in> set pre. case map_of js x of None \<Rightarrow> True | Some j \<Rightarrow> status j \<noteq> PENDING"
      by blast
    with False show ?thesis
      by (intro exI[of _ "a # pre"] exI[of _ post]) (auto split: option.splits)
  qed
qed

lemma quiet_mutate_job [simp]: "quiet (mutate_job k f q) = quiet q"
  by (simp add: quiet_def)

lemma quiet_call_back [simp]: "quiet q \<Longrightarrow> call_back q k = None"
  by (auto simp: quiet_def call_back_def split: option.splits)

lemma process_job_caught:
  assumes "map_of (jobs q) k = Some j" and "quiet q"
    and "case render_of j of None \<Rightarrow> True | Some e \<Rightarrow> is_Exception e"
  shows "fst (process_job env w q k) = None"
  using assms
  by (auto simp: process_job_def process_job_try_def handle_job_error_def datetime_now_def
      on_job_started_def on_job_completed_def on_job_failed_def
      Let_def split: option.splits prod.splits)

lemma process_job_returns:
  assumes "map_of (jobs q) k = Some j" and "quiet q"
    and "process_job env w q k = (None, w1, q1)"
  shows "job_order q1 = job_order q \<and> cancelled q1 = cancelled q \<and> running q1 = running q
       \<and> progress_callback q1 = progress_callback q
       \<and> map fst (jobs q1) = map fst (jobs q)
       \<and> render_calls w1 = render_calls w @ [k]
       \<and> (\<exists>j'. settled j j' \<and> map_of (jobs q1) = (map_of (jobs q))(k \<mapsto> j'))"
  using assms
  by (auto simp: process_job_def process_job_try_def handle_job_error_def datetime_now_def
      on_job_started_def on_job_completed_def on_job_failed_def
      map_of_mutate_job settled_def Let_def fun_eq_iff render_of_def
      split: option.splits if_splits prod.splits)

lemma settled_not_pending: "settled j j' \<Longrightarrow> status j' \<noteq> PENDING"
  by (cases "render_of j") (auto simp: settled_def elim: ssubst)

lemma get_next_pending_job_None:
  "get_next_pending_job q = None \<Longrightarrow> k \<in> set (job_order q) \<Longrightarrow> \<not> is_pending q k"
  using get_next_pending_loop_None[of "jobs q" "job_order q" k]
  by (auto simp: get_next_pending_job_def is_pending_def split: option.splits)

lemma get_next_pending_job_Some:
  assumes "get_next_pending_job q = Some k"
  shows "\<exists>pre post. job_order q = pre @ k # post \<and> (\<forall>x \<in> set pre. \<not> is_pending q x)"
    and "is_pending q k"
proof -
  from get_next_pending_loop_split[of "jobs q" "job_order q" k] assms
  obtain pre post where "job_order q = pre @ k # post"
    "\<forall>x \<in> set pre. case map_of (jobs q) x of None \<Rightarrow> True | Some j \<Rightarrow> status j \<noteq> PENDING"
    by (auto simp: get_next_pending_job_def)
  then show "\<exists>pre post. job_order q = pre @ k # post \<and> (\<forall>x \<in> set pre. \<not> is_pending q x)"
    by (intro exI[of _ pre] exI[of _ post]) (auto simp: is_pending_def split: option.splits)
  from get_next_pending_loop_Some[of "jobs q" "job_order q" k] assms
  show "is_pending q k" by (auto simp: get_next_pending_job_def is_pending_def)
qed

lemma settled_render_of: "settled j j' \<Longrightarrow> render_of j' = render_of j"
  by (cases "render_of j") (auto simp: settled_def render_of_def elim: ssubst)

lemma settled_catchable: "settled j j' \<Longrightarrow> catchable j \<Longrightarrow> catchable j'"
  by (simp add: catchable_def settled_render_of)

lemma run_sequential_effect:
  assumes "\<not> cancelled q"
    and "\<forall>k j. map_of (jobs q) k = Some j \<longrightarrow> catchable j"
    and "quiet q"
  shows "\<exists>w' q'. run_sequential env w q = (None, w', q')
      \<and> job_order q' = job_order q \<and> map fst (jobs q') = map fst (jobs q)
      \<and> running q' = running q \<and> cancelled q' = cancelled q
      \<and> (\<forall>k j. map_of (jobs q) k = Some j \<longrightarrow>
            (\<exists>j'. map_of (jobs q') k = Some j' \<and>
               (if status j = PENDING \<and> k \<in> set (job_order q) then settled j j' else j' = j)))
      \<and> (distinct (job_order q) \<longrightarrow>
            render_calls w' = render_calls w @ filter (is_pending q) (job_order q))"
  using assms
proof (induction env w q rule: run_sequential.induct)
  case (1 env w q)
  note nc = \<open>\<not> cancelled q\<close>
  note ok = \<open>\<forall>k j. map_of (jobs q) k = Some j \<longrightarrow> catchable j\<close>
  note qu = \<open>quiet q\<close>
  show ?case
  proof (cases "get_next_pending_job q")
    case None
    have run: "run_sequential env w q = (None, w, q)"
      using nc None by (subst run_sequential.simps) simp
    have np: "\<And>k. k \<in> set (job_order q) \<Longrightarrow> \<not> is_pending q k"
      using get_next_pending_job_None[OF None] .
    have "filter (is_pending q) (job_order q) = []"
      using np by (simp add: filter_empty_conv)
    moreover have "\<And>k j. map_of (jobs q) k = Some j \<Longrightarrow>
        \<not> (status j = PENDING \<and> k \<in> set (job_order q))"
      using np by (fastforce simp: is_pending_def)
    ultimately show ?thesis
      unfolding run by auto
  next
    case (Some k)
    from get_next_pending_job_Some[OF Some] obtain pre post where
      split: "job_order q = pre @ k # post" "\<forall>x \<in> set pre. \<not> is_pending q x"
      and pk: "is_pending q k" by blast
    from pk obtain j where j: "map_of (jobs q) k = Some j" "status j = PENDING"
      by (auto simp: is_pending_def split: option.splits)
    have kin: "k \<in> set (job_order q)" using split by simp
    have cj: "catchable j" using ok j by blast
    have "fst (process_job env w q k) = None"
      using process_job_caught[OF j(1) qu] cj by (simp add: catchable_def)
    then obtain w1 q1 where p: "process_job env w q k = (None, w1, q1)"
      by (cases "process_job env w q k") auto
    from process_job_returns[OF j(1) qu p] obtain j' where
      s1: "job_order q1 = job_order q" "cancelled q1 = cancelled q" "running q1 = running q"
          "map fst (jobs q1) = map fst (jobs q)" "render_calls w1 = render_calls w @ [k]"
      and cb1: "progress_callback q1 = progress_callback q"
      and j': "settled j j'" "map_of (jobs q1) = (map_of (jobs q))(k \<mapsto> j')"
      by blast
    have qu1: "quiet q1" using qu cb1 by (simp add: quiet_def)
    have nc1: "\<not> cancelled q1" using nc s1 by simp
    have ok1: "\<forall>k j. map_of (jobs q1) k = Some j \<longrightarrow> catchable j"
      using ok j' j cj by (auto simp: settled_catchable)
    from "1.IH"[OF nc Some p[symmetric] refl refl nc1 ok1 qu1]
    obtain w' q' where
      r: "run_sequential env w1 q1 = (None, w', q')"
      and sh: "job_order q' = job_order q1" "map fst (jobs q') = map fst (jobs q1)"
          "running q' = running q1" "cancelled q' = cancelled q1"
      and eff: "\<forall>k j. map_of (jobs q1) k = Some j \<longrightarrow>
            (\<exists>j'. map_of (jobs q') k = Some j' \<and>
               (if status j = PENDING \<and> k \<in> set (job_order q1) then settled j j' else j' = j))"
      and calls: "distinct (job_order q1) \<longrightarrow>
            render_calls w' = render_calls w1 @ filter (is_pending q1) (job_order q1)"
      by blast
    have run: "run_sequential env w q = (None, w', q')"
      using nc Some p r by (subst run_sequential.simps) simp
    have np': "status j' \<noteq> PENDING" using settled_not_pending[OF j'(1)] .
    have e: "\<forall>k0 j0. map_of (jobs q) k0 = Some j0 \<longrightarrow>
            (\<exists>j''. map_of (jobs q') k0 = Some j'' \<and>
               (if status j0 = PENDING \<and> k0 \<in> set (job_order q) then settled j0 j''
                else j'' = j0))"
    proof (intro allI impI)
      fix k0 j0 assume a: "map_of (jobs q) k0 = Some j0"
      show "\<exists>j''. map_of (jobs q') k0 = Some j'' \<and>
               (if status j0 = PENDING \<and> k0 \<in> set (job_order q) then settled j0 j''
                else j'' = j0)"
      proof (cases "k0 = k")
        case True
        then have "map_of (jobs q1) k0 = Some j'" using j' by simp
        with eff np' have "map_of (jobs q') k0 = Some j'" by fastforce
        moreover have "j0 = j" using a j True by simp
        ultimately show ?thesis using j j' kin True by simp
      next
        case False
        then have "map_of (jobs q1) k0 = Some j0" using j' a by simp
        with eff s1 show ?thesis by fastforce
      qed
    qed
    have c: "distinct (job_order q) \<longrightarrow>
            render_calls w' = render_calls w @ filter (is_pending q) (job_order q)"
    proof
      assume d: "distinct (job_order q)"
      have p1: "\<And>x. is_pending q1 x = (x \<noteq> k \<and> is_pending q x)"
        using j' np' by (auto simp: is_pending_def)
      have kpost: "k \<notin> set post" "k \<notin> set pre" using d split by auto
      have f1: "filter (is_pending q) (job_order q) = k # filter (is_pending q) post"
        using split pk by (simp add: filter_empty_conv)
      have "filter (is_pending q1) (job_order q) = filter (is_pending q1) post"
        using split p1 by (simp add: filter_empty_conv)
      also have "\<dots> = filter (is_pending q) post"
        using kpost p1 by (intro filter_cong) auto
      finally have f2: "filter (is_pending q1) (job_order q) = filter (is_pending q) post" .
      from calls d s1 have "render_calls w' = render_calls w1 @ filter (is_pending q1) (job_order q)"
        by simp
      then show "render_calls w' = render_calls w @ filter (is_pending q) (job_order q)"
        by (simp add: f1 f2 s1)
    qed
    show ?thesis
      using run sh s1 e c by simp
  qed
qed

lemma update_fresh: "k \<notin> fst ` set al \<Longrightarrow> AList.update k v al = al @ [(k, v)]"
  by (induction al) auto

lemma add_job_Inr:
  assumes "add_job env w q s = (Inr k, w1, q1)"
  shows "\<exists>j. status j = PENDING \<and> jobs q1 = AList.update k j (jobs q)
       \<and> job_order q1 = job_order q @ [k] \<and> running q1 = running q
       \<and> cancelled q1 = cancelled q \<and> default_renderer q1 = default_renderer q
       \<and> progress_callback q1 = progress_callback q
       \<and> render_calls w1 = render_calls w"
  using assms
  apply (auto simp: add_job_def Let_def datetime_now_def uuid_uuid4_def
      split: option.splits prod.splits)
     apply (rule exI, rule conjI[rotated], rule refl, simp)+
  done

lemma add_jobs_fresh:
  assumes "add_jobs env w q subs = (map Inr ids, w1, q1)"
    and "distinct (job_order q @ ids)" and "all_pending_in_order q"
  shows "job_order q1 = job_order q @ ids \<and> all_pending_in_order q1
       \<and> running q1 = running q \<and> render_calls w1 = render_calls w
       \<and> length ids = length subs"
  using assms
proof (induction subs arbitrary: w q ids)
  case Nil
  then show ?case by simp
next
  case (Cons s ss)
  obtain r wa qa where a: "add_job env w q s = (r, wa, qa)" by (cases "add_job env w q s")
  obtain rs wb qb where b: "add_jobs env wa qa ss = (rs, wb, qb)"
    by (cases "add_jobs env wa qa ss")
  from Cons.prems(1) a b obtain k ids' where ids: "ids = k # ids'" "r = Inr k"
      "rs = map Inr ids'" "wb = w1" "qb = q1"
    by (cases ids) auto
  from add_job_Inr[OF a[unfolded ids(2)]] obtain j where
    j: "status j = PENDING" "jobs qa = AList.update k j (jobs q)"
       "job_order qa = job_order q @ [k]" "running qa = running q"
       "render_calls wa = render_calls w" by blast
  have fresh: "k \<notin> fst ` set (jobs q)"
    using Cons.prems(2,3) ids by (auto simp: all_pending_in_order_def)
  have pa: "all_pending_in_order qa"
    using Cons.prems(3) j fresh by (simp add: all_pending_in_order_def update_fresh)
  have da: "distinct (job_order qa @ ids')" using Cons.prems(2) ids j by simp
  from Cons.IH[OF b[unfolded ids] da pa] j ids show ?case by simp
qed

lemma completed_effect:
  assumes "\<not> running q" and "all_pending_in_order q" and "distinct (job_order q)"
    and "\<forall>k j. map_of (jobs q) k = Some j \<longrightarrow> render_of j = None"
    and "quiet q"
  shows "\<exists>w' q'. run_SEQUENTIAL env w q = (None, w', q')
      \<and> render_calls w' = render_calls w @ job_order q
      \<and> map fst (jobs q') = job_order q
      \<and> list_all (\<lambda>p. status (snd p) = COMPLETED) (jobs q')
      \<and> completed (get_stats q') = length (job_order q)"
proof -
  let ?q0 = "q\<lparr>running := True, cancelled := False\<rparr>"
  have c: "\<forall>k j. map_of (jobs ?q0) k = Some j \<longrightarrow> catchable j"
    using assms(4) by (simp add: catchable_def)
  have qu: "quiet ?q0" using assms(5) by (simp add: quiet_def)
  from run_sequential_effect[of ?q0 env w, OF _ c qu] obtain w' q' where
    r: "run_sequential env w ?q0 = (None, w', q')"
    and sh: "job_order q' = job_order q" "map fst (jobs q') = map fst (jobs q)"
    and eff: "\<forall>k j. map_of (jobs q) k = Some j \<longrightarrow>
            (\<exists>j'. map_of (jobs q') k = Some j' \<and>
               (if status j = PENDING \<and> k \<in> set (job_order q) then settled j j' else j' = j))"
    and calls: "distinct (job_order q) \<longrightarrow>
            render_calls w' = render_calls w @ filter (is_pending ?q0) (job_order q)"
    by auto
  have keys: "map fst (jobs q) = job_order q" and pend: "list_all (\<lambda>p. status (snd p) = PENDING) (jobs q)"
    using assms(2) by (simp_all add: all_pending_in_order_def)
  have dk: "distinct (map fst (jobs q))" using keys assms(3) by simp
  have allp: "\<And>k. k \<in> set (job_order q) \<Longrightarrow> is_pending ?q0 k"
  proof -
    fix k assume "k \<in> set (job_order q)"
    then have "k \<in> fst ` set (jobs q)" using keys[symmetric] by simp
    then obtain j where "(k, j) \<in> set (jobs q)" by auto
    then have "map_of (jobs q) k = Some j" "status j = PENDING"
      using dk pend by (auto simp: list_all_iff)
    then show "is_pending ?q0 k" by (simp add: is_pending_def)
  qed
  then have f: "filter (is_pending ?q0) (job_order q) = job_order q"
    by (simp add: filter_id_conv)
  have allc: "list_all (\<lambda>p. status (snd p) = COMPLETED) (jobs q')"
    unfolding list_all_iff
  proof
    fix p assume p: "p \<in> set (jobs q')"
    obtain k j' where kj: "p = (k, j')" by (cases p)
    have dk': "distinct (map fst (jobs q'))" using sh dk by simp
    then have m': "map_of (jobs q') k = Some j'" using p kj by simp
    have "k \<in> set (map fst (jobs q))" using p kj sh(2)[symmetric] by force
    then have kin: "k \<in> set (job_order q)" using keys by simp
    then have "k \<in> fst ` set (jobs q)" using keys[symmetric] by simp
    then obtain j where "(k, j) \<in> set (jobs q)" by auto
    then have m: "map_of (jobs q) k = Some j" "status j = PENDING"
      using dk pend by (auto simp: list_all_iff)
    with eff kin m' have "settled j j'" by fastforce
    moreover have "render_of j = None" using assms(4) m by blast
    ultimately have "status j' = COMPLETED" by (auto simp: settled_def elim: ssubst)
    then show "status (snd p) = COMPLETED" using kj by simp
  qed
  have "filter (\<lambda>j. status j = COMPLETED) (map snd (jobs q')) = map snd (jobs q')"
    using allc by (simp add: filter_id_conv list_all_iff)
  then have cnt: "completed (get_stats (q'\<lparr>running := False\<rparr>)) = length (job_order q)"
    using sh keys
    by (simp add: get_stats_def count_status_def Let_def) (metis length_map)
  show ?thesis
    using r assms(1,3) sh keys calls f allc cnt
    by (simp add: run_SEQUENTIAL_def)
qed

lemma add_job_consistent:
  assumes "queue_consistent q" and "next_job_id env w s \<notin> set (job_order q)"
  shows "queue_consistent (snd (snd (add_job env w q s)))"
  using assms
  by (auto simp: add_job_def queue_consistent_def next_job_id_def Let_def uuid_uuid4_def
      datetime_now_def update_fresh split: option.splits prod.splits)

lemma remove_job_consistent:
  assumes "queue_consistent q"
  shows "queue_consistent (snd (remove_job q k))
       \<and> k \<notin> set (job_order (snd (remove_job q k)))
       \<and> map_of (jobs (snd (remove_job q k))) k = None
       \<and> fst (remove_job q k) = (k \<in> set (job_order q))"
proof (cases "map_of (jobs q) k")
  case None
  then have "k \<notin> fst ` set (jobs q)" by (simp add: map_of_eq_None_iff)
  with None assms show ?thesis by (simp add: remove_job_def queue_consistent_def)
next
  case (Some j)
  then have kin: "k \<in> fst ` set (jobs q)" by (metis map_of_eq_None_iff option.distinct(1))
  have d: "distinct (map fst (AList.delete k (AList.map_entry k f (jobs q))))" for f
    using assms by (simp add: queue_consistent_def distinct_delete map_fst_map_entry)
  have s: "fst ` set (AList.delete k (AList.map_entry k f (jobs q))) = fst ` set (jobs q) - {k}" for f
    using delete_keys[of k "AList.map_entry k f (jobs q)"]
    by (metis list.set_map map_fst_map_entry set_removeAll)
  have d0: "distinct (map fst (AList.delete k (jobs q)))"
    using assms by (simp add: queue_consistent_def distinct_delete)
  have s0: "fst ` set (AList.delete k (jobs q)) = fst ` set (jobs q) - {k}"
    using delete_keys[of k "jobs q"] by (metis list.set_map set_removeAll)
  have m: "map_of (AList.delete k al) k = None" for al :: "(string \<times> render_job) list"
    by (simp add: delete_conv')
  show ?thesis
    using Some assms kin d s d0 s0 m
    by (auto simp: remove_job_def queue_consistent_def Let_def mutate_job_def)
qed

section \<open>Facts about templates\<close>

lemma py_setitem_Inr:
  "py_setitem xs i v = Inr ys \<longleftrightarrow>
     (- int (length xs) \<le> i \<and> i < int (length xs) \<and> ys = xs[slot (length xs) i := v])"
  by (auto simp: py_setitem_def slot_def)

lemma get_track_Some:
  "get_track tln i = Inr (Some r) \<longleftrightarrow>
     (0 \<le> i \<and> i < int (length (tracks tln)) \<and> r = tracks tln ! nat i)"
  by (auto simp: get_track_def py_getitem_def)

lemma get_track_None:
  "get_track tln i = Inr None \<longleftrightarrow> \<not> (0 \<le> i \<and> i < int (length (tracks tln)))"
  by (auto simp: get_track_def py_getitem_def)

lemma get_track_not_Inl: "get_track tln i \<noteq> Inl e"
  by (auto simp: get_track_def py_getitem_def)

lemma unnamed_stamp [simp]: "unnamed (c\<lparr>clip_id := n\<rparr>) = unnamed c"
  by (simp add: unnamed_def)

lemma unnamed_copy_clip [simp]: "unnamed (copy_clip n c) = unnamed c"
  by (simp add: unnamed_def copy_clip_def)

lemma fill_loop_assigns:
  assumes "assigns s filled pos data k ph t ci made"
  shows "fill_loop s filled pos data ((k, ph) # rest)
       = fill_loop (assigned s filled t ci made) filled pos data rest"
proof -
  let ?r = "tracks filled ! nat t"
  have g: "get_track filled t = Inr (Some ?r)"
    using assms by (simp add: get_track_Some assigns_def)
  have ne: "clips (cells s ! ?r) \<noteq> []" using assms by (auto simp: assigns_def)
  have ps: "py_setitem (clips (cells s ! ?r)) ci (made\<lparr>clip_id := next_id s\<rparr>)
     = Inr ((clips (cells s ! ?r))[slot (length (clips (cells s ! ?r))) ci :=
                         made\<lparr>clip_id := next_id s\<rparr>])"
    using assms by (simp add: py_setitem_Inr assigns_def)
  show ?thesis
    using assms g ne ps by (simp add: assigns_def assigned_def Let_def)
qed

lemma fill_loop_skips:
  assumes "\<forall>t ci made. \<not> assigns s filled pos data k ph t ci made"
    and "fill_loop s filled pos data ((k, ph) # rest) = (res, s')"
  shows "(\<exists>s1. cells s1 = cells s \<and> next_id s \<le> next_id s1
              \<and> fill_loop s1 filled pos data rest = (res, s'))
         \<or> (res \<noteq> None \<and> cells s' = cells s \<and> next_id s \<le> next_id s')"
proof (cases "map_of pos k")
  case None
  then show ?thesis using assms(2) by auto
next
  case (Some tc)
  obtain t ci where tc: "tc = (t, ci)" by (cases tc)
  show ?thesis
  proof (cases "create_clip ph data")
    case (Inl e)
    then show ?thesis using assms(2) Some by (auto simp: tc)
  next
    case (Inr made)
    let ?s1 = "s\<lparr>next_id := Suc (next_id s)\<rparr>"
    have s1: "cells ?s1 = cells s" "next_id s \<le> next_id ?s1" by simp_all
    show ?thesis
    proof (cases "0 \<le> t \<and> t < int (length (tracks filled))")
      case False
      then have "get_track filled t = Inr None" by (simp add: get_track_None)
      then have "fill_loop ?s1 filled pos data rest = (res, s')"
        using assms(2) Some Inr by (simp add: tc Let_def)
      then show ?thesis using s1 by blast
    next
      case True
      let ?r = "tracks filled ! nat t"
      have g: "get_track filled t = Inr (Some ?r)" using True by (simp add: get_track_Some)
      have na: "\<not> (- int (length (clips (cells s ! ?r))) \<le> ci
                  \<and> ci < int (length (clips (cells s ! ?r))))"
        using assms(1) Some Inr True by (auto simp: assigns_def tc)
      show ?thesis
      proof (cases "clips (cells s ! ?r) \<noteq> [] \<and> ci < int (length (clips (cells s ! ?r)))")
        case False
        then have "fill_loop ?s1 filled pos data rest = (res, s')"
          using assms(2) Some Inr g by (auto simp: tc Let_def)
        then show ?thesis using s1 by blast
      next
        case True
        then have "\<exists>e. py_setitem (clips (cells s ! ?r)) ci (made\<lparr>clip_id := next_id s\<rparr>) = Inl e"
          using na by (cases "py_setitem (clips (cells s ! ?r)) ci (made\<lparr>clip_id := next_id s\<rparr>)")
            (auto simp: py_setitem_Inr)
        then show ?thesis using assms(2) Some Inr g True by (auto simp: tc Let_def)
      qed
    qed
  qed
qed

lemma assigned_cells:
  "length (cells (assigned s filled t ci made)) = length (cells s)"
  "r \<noteq> tracks filled ! nat t \<Longrightarrow> cells (assigned s filled t ci made) ! r = cells s ! r"
  "next_id (assigned s filled t ci made) = Suc (next_id s)"
  "length (clips (cells (assigned s filled t ci made) ! r)) = length (clips (cells s ! r))"
proof -
  show "length (cells (assigned s filled t ci made)) = length (cells s)"
    by (simp add: assigned_def)
  show "r \<noteq> tracks filled ! nat t \<Longrightarrow> cells (assigned s filled t ci made) ! r = cells s ! r"
    by (simp add: assigned_def)
  show "next_id (assigned s filled t ci made) = Suc (next_id s)"
    by (simp add: assigned_def)
  show "length (clips (cells (assigned s filled t ci made) ! r)) = length (clips (cells s ! r))"
    by (cases "r = tracks filled ! nat t"; cases "r < length (cells s)")
       (simp_all add: assigned_def list_update_beyond)
qed

lemma fill_loop_frame:
  "fill_loop s filled pos data phs = (res, s') \<Longrightarrow>
     length (cells s') = length (cells s)
     \<and> (\<forall>r. r \<notin> set (tracks filled) \<longrightarrow> cells s' ! r = cells s ! r)"
proof (induction phs arbitrary: s)
  case Nil
  then show ?case by simp
next
  case (Cons kp phs)
  obtain k ph where kp: "kp = (k, ph)" by (cases kp)
  show ?case
  proof (cases "\<exists>t ci made. assigns s filled pos data k ph t ci made")
    case True
    then obtain t ci made where a: "assigns s filled pos data k ph t ci made" by blast
    have run: "fill_loop (assigned s filled t ci made) filled pos data phs = (res, s')"
      using Cons.prems fill_loop_assigns[OF a] by (simp add: kp)
    have "nat t < length (tracks filled)" using a by (auto simp: assigns_def)
    then have "tracks filled ! nat t \<in> set (tracks filled)" by (rule nth_mem)
    then have "\<forall>r. r \<notin> set (tracks filled)
          \<longrightarrow> cells (assigned s filled t ci made) ! r = cells s ! r"
      by (metis assigned_cells(2))
    then show ?thesis using Cons.IH[OF run] by (simp add: assigned_cells(1))
  next
    case False
    then have "\<forall>t ci made. \<not> assigns s filled pos data k ph t ci made" by blast
    from fill_loop_skips[OF this Cons.prems[unfolded kp]] show ?thesis
      using Cons.IH by auto
  qed
qed

lemma fill_loop_ids:
  assumes "fill_loop s filled pos data phs = (res, s')"
    and "n0 \<le> next_id s"
    and "\<forall>r \<in> set (tracks filled). \<forall>c \<in> set (clips (cells s ! r)). n0 \<le> clip_id c"
  shows "\<forall>r \<in> set (tracks filled). \<forall>c \<in> set (clips (cells s' ! r)). n0 \<le> clip_id c"
  using assms
proof (induction phs arbitrary: s)
  case Nil
  then show ?case by simp
next
  case (Cons kp phs)
  obtain k ph where kp: "kp = (k, ph)" by (cases kp)
  show ?case
  proof (cases "\<exists>t ci made. assigns s filled pos data k ph t ci made")
    case True
    then obtain t ci made where a: "assigns s filled pos data k ph t ci made" by blast
    let ?s2 = "assigned s filled t ci made"
    let ?rt = "tracks filled ! nat t"
    have run: "fill_loop ?s2 filled pos data phs = (res, s')"
      using Cons.prems(1) fill_loop_assigns[OF a] by (simp add: kp)
    have n2: "n0 \<le> next_id ?s2" using Cons.prems(2) by (simp add: assigned_cells)
    have "\<forall>c \<in> set (clips (cells ?s2 ! r)). n0 \<le> clip_id c" if r: "r \<in> set (tracks filled)" for r
    proof (cases "r = ?rt \<and> r < length (cells s)")
      case True
      then have "clips (cells ?s2 ! r) =
         (clips (cells s ! r))[slot (length (clips (cells s ! r))) ci := made\<lparr>clip_id := next_id s\<rparr>]"
        by (simp add: assigned_def)
      moreover have "\<forall>c \<in> set (clips (cells s ! r)). n0 \<le> clip_id c"
        using Cons.prems(3) r by blast
      ultimately show ?thesis
        using Cons.prems(2) set_update_subset_insert[of "clips (cells s ! r)"] by fastforce
    next
      case False
      then have "cells ?s2 ! r = cells s ! r"
        by (cases "r = ?rt") (simp_all add: assigned_def list_update_beyond)
      then show ?thesis using Cons.prems(3) r by simp
    qed
    then show ?thesis using Cons.IH[OF run n2] by blast
  next
    case False
    then have "\<forall>t ci made. \<not> assigns s filled pos data k ph t ci made" by blast
    from fill_loop_skips[OF this Cons.prems(1)[unfolded kp]] show ?thesis
    proof
      assume "\<exists>s1. cells s1 = cells s \<and> next_id s \<le> next_id s1
              \<and> fill_loop s1 filled pos data phs = (res, s')"
      then obtain s1 where s1: "cells s1 = cells s" "next_id s \<le> next_id s1"
        "fill_loop s1 filled pos data phs = (res, s')" by blast
      show ?thesis
        using Cons.IH[OF s1(3)] Cons.prems(2,3) s1(1,2) by simp
    next
      assume "res \<noteq> None \<and> cells s' = cells s \<and> next_id s \<le> next_id s'"
      then show ?thesis using Cons.prems(3) by simp
    qed
  qed
qed

lemma unnamed_track_nth:
  "unnamed_track tr = tr\<lparr>clips := map (\<lambda>p. unnamed (clips tr ! p)) [0..<length (clips tr)]\<rparr>"
proof -
  have "map unnamed (clips tr) = map (\<lambda>p. unnamed (clips tr ! p)) [0..<length (clips tr)]"
    by (rule nth_equalityI) simp_all
  then show ?thesis by (simp add: unnamed_track_def)
qed

lemma fill_loop_content:
  assumes "fill_loop s filled pos data phs = (None, s')"
    and "\<forall>r \<in> set (tracks filled). r < length (cells s)"
    and "ti < length (tracks filled)"
  shows "unnamed_track (cells s' ! (tracks filled ! ti)) =
     (cells s ! (tracks filled ! ti))\<lparr>clips :=
        map (\<lambda>p. foldl (placed (tracks filled) pos data ti
                           (length (clips (cells s ! (tracks filled ! ti)))) p)
                    (unnamed (clips (cells s ! (tracks filled ! ti)) ! p)) phs)
          [0..<length (clips (cells s ! (tracks filled ! ti)))]\<rparr>"
  using assms(1,2)
proof (induction phs arbitrary: s)
  case Nil
  then show ?case by (simp add: unnamed_track_nth)
next
  case (Cons kp phs)
  obtain k ph where kp: "kp = (k, ph)" by (cases kp)
  let ?refs = "tracks filled"
  let ?r = "?refs ! ti"
  let ?len = "length (clips (cells s ! ?r))"
  have rin: "?r \<in> set ?refs" using assms(3) by simp
  have rl: "?r < length (cells s)" using Cons.prems(2) rin by blast
  show ?case
  proof (cases "\<exists>t ci made. assigns s filled pos data k ph t ci made")
    case True
    then obtain t ci made where a: "assigns s filled pos data k ph t ci made" by blast
    let ?s2 = "assigned s filled t ci made"
    let ?rt = "?refs ! nat t"
    have run: "fill_loop ?s2 filled pos data phs = (None, s')"
      using Cons.prems(1) fill_loop_assigns[OF a] by (simp add: kp)
    have v2: "\<forall>r \<in> set ?refs. r < length (cells ?s2)"
      using Cons.prems(2) by (simp add: assigned_cells)
    note IH = Cons.IH[OF run v2]
    have w: "map_of pos k = Some (t, ci)" "create_clip ph data = Inr made"
        "0 \<le> t" "t < int (length ?refs)"
        "- int (length (clips (cells s ! ?rt))) \<le> ci"
        "ci < int (length (clips (cells s ! ?rt)))"
      using a by (simp_all add: assigns_def)
    have len2: "length (clips (cells ?s2 ! ?r)) = ?len" by (simp add: assigned_cells)
    show ?thesis
    proof (cases "?rt = ?r")
      case True
      let ?cs = "(clips (cells s ! ?r))[slot ?len ci := made\<lparr>clip_id := next_id s\<rparr>]"
      have c2: "cells ?s2 ! ?r = (cells s ! ?r)\<lparr>clips := ?cs\<rparr>"
        using True rl by (simp add: assigned_def)
      have sl: "slot ?len ci < ?len" using w(5,6) True by (auto simp: slot_def)
      have step: "unnamed (?cs ! p) = placed ?refs pos data ti ?len p (unnamed (clips (cells s ! ?r) ! p)) (k, ph)"
        if "p < ?len" for p
        using that w sl True by (auto simp: placed_def)
      have "map (\<lambda>p. foldl (placed ?refs pos data ti ?len p) (unnamed (?cs ! p)) phs) [0..<?len]
          = map (\<lambda>p. foldl (placed ?refs pos data ti ?len p)
                        (unnamed (clips (cells s ! ?r) ! p)) (kp # phs)) [0..<?len]"
        using step by (simp add: kp)
      then show ?thesis using IH by (simp add: c2)
    next
      case False
      then have c2: "cells ?s2 ! ?r = cells s ! ?r" by (simp add: assigned_cells)
      have step: "placed ?refs pos data ti ?len p c (k, ph) = c" for p c
        using w False by (auto simp: placed_def)
      show ?thesis using IH by (simp add: c2 kp step)
    qed
  next
    case False
    then have na: "\<forall>t ci made. \<not> assigns s filled pos data k ph t ci made" by blast
    from fill_loop_skips[OF na Cons.prems(1)[unfolded kp]]
    obtain s1 where s1: "cells s1 = cells s" "fill_loop s1 filled pos data phs = (None, s')"
      by auto
    have v1: "\<forall>r \<in> set ?refs. r < length (cells s1)" using Cons.prems(2) s1(1) by simp
    have step: "placed ?refs pos data ti ?len p c (k, ph) = c" for p c
    proof (cases "map_of pos k")
      case None
      then show ?thesis by (simp add: placed_def)
    next
      case (Some tc)
      obtain t ci where tc: "tc = (t, ci)" by (cases tc)
      show ?thesis
      proof (cases "create_clip ph data")
        case (Inl e)
        then show ?thesis using Some by (simp add: placed_def tc)
      next
        case (Inr made)
        have "\<not> (0 \<le> t \<and> t < int (length ?refs) \<and> ?refs ! nat t = ?r
                  \<and> - int ?len \<le> ci \<and> ci < int ?len)"
          using na Some Inr by (auto simp: assigns_def tc)
        then show ?thesis using Some Inr by (auto simp: placed_def tc)
      qed
    qed
    show ?thesis using Cons.IH[OF s1(2) v1] by (simp add: s1(1) kp step)
  qed
qed

text \<open>The loop returns when every placeholder that has a position makes its clip and
  no index lies below the start of its track.\<close>

lemma fill_loop_returns:
  assumes "list_all
       (\<lambda>kp. case map_of pos (fst kp) of
                None \<Rightarrow> True
              | Some (t, ci) \<Rightarrow>
                  (case create_clip (snd kp) data of Inl e \<Rightarrow> False | Inr made \<Rightarrow> True)
                  \<and> (case get_track filled t of
                       Inr (Some r) \<Rightarrow> ci < int (lens r) \<longrightarrow> - int (lens r) \<le> ci
                     | _ \<Rightarrow> True)) phs"
    and "\<forall>r. length (clips (cells s ! r)) = lens r"
  shows "fst (fill_loop s filled pos data phs) = None"
  using assms
proof (induction phs arbitrary: s)
  case Nil
  then show ?case by simp
next
  case (Cons kp phs)
  obtain k ph where kp: "kp = (k, ph)" by (cases kp)
  have rest: "list_all
       (\<lambda>kp. case map_of pos (fst kp) of
                None \<Rightarrow> True
              | Some (t, ci) \<Rightarrow>
                  (case create_clip (snd kp) data of Inl e \<Rightarrow> False | Inr made \<Rightarrow> True)
                  \<and> (case get_track filled t of
                       Inr (Some r) \<Rightarrow> ci < int (lens r) \<longrightarrow> - int (lens r) \<le> ci
                     | _ \<Rightarrow> True)) phs"
    using Cons.prems(1) by simp
  show ?case
  proof (cases "\<exists>t ci made. assigns s filled pos data k ph t ci made")
    case True
    then obtain t ci made where a: "assigns s filled pos data k ph t ci made" by blast
    have "\<forall>r. length (clips (cells (assigned s filled t ci made) ! r)) = lens r"
      using Cons.prems(2) by (simp add: assigned_cells)
    from Cons.IH[OF rest this] show ?thesis
      using fill_loop_assigns[OF a] by (simp add: kp)
  next
    case False
    then have na: "\<forall>t ci made. \<not> assigns s filled pos data k ph t ci made" by blast
    obtain res s' where run: "fill_loop s filled pos data ((k, ph) # phs) = (res, s')"
      by (cases "fill_loop s filled pos data ((k, ph) # phs)")
    have "res = None"
    proof (cases "map_of pos k")
      case None
      then have "fill_loop s filled pos data ((k, ph) # phs) = fill_loop s filled pos data phs"
        by simp
      then show ?thesis using Cons.IH[OF rest Cons.prems(2)] run by simp
    next
      case (Some tc)
      obtain t ci where tc: "tc = (t, ci)" by (cases tc)
      from Cons.prems(1) Some obtain made where made: "create_clip ph data = Inr made"
        by (cases "create_clip ph data") (auto simp: kp tc)
      let ?s1 = "s\<lparr>next_id := Suc (next_id s)\<rparr>"
      have l1: "\<forall>r. length (clips (cells ?s1 ! r)) = lens r" using Cons.prems(2) by simp
      note IH1 = Cons.IH[OF rest l1]
      show ?thesis
      proof (cases "0 \<le> t \<and> t < int (length (tracks filled))")
        case False
        then have "get_track filled t = Inr None" by (simp add: get_track_None)
        then have "fill_loop s filled pos data ((k, ph) # phs) = fill_loop ?s1 filled pos data phs"
          using Some made by (simp add: tc Let_def)
        then show ?thesis using IH1 run by simp
      next
        case True
        let ?r = "tracks filled ! nat t"
        have g: "get_track filled t = Inr (Some ?r)" using True by (simp add: get_track_Some)
        have lr: "length (clips (cells s ! ?r)) = lens ?r" using Cons.prems(2) by simp
        have "ci < int (lens ?r) \<longrightarrow> - int (lens ?r) \<le> ci"
          using Cons.prems(1) Some made g by (simp add: kp tc)
        moreover have "\<not> (- int (lens ?r) \<le> ci \<and> ci < int (lens ?r))"
          using na Some made True lr by (auto simp: assigns_def tc)
        ultimately have "\<not> ci < int (length (clips (cells s ! ?r)))" using lr by auto
        then have "fill_loop s filled pos data ((k, ph) # phs) = fill_loop ?s1 filled pos data phs"
          using Some made g by (simp add: tc Let_def)
        then show ?thesis using IH1 run by simp
      qed
    qed
    then show ?thesis using run by (simp add: kp)
  qed
qed

lemma copied_step:
  assumes "copied n nb h memo" and "map_of memo r = None" and "r < nb"
  shows "copied n nb (h @ [copy_track n (h ! r)]) ((r, length h) # memo)"
proof -
  have 1: "r \<notin> fst ` set memo" using assms(2) by (simp add: map_of_eq_None_iff)
  have 2: "length h \<notin> snd ` set memo" using assms(1) by (auto simp: copied_def)
  have 3: "\<forall>ab \<in> set memo. fst ab < nb \<and> nb \<le> snd ab \<and> snd ab < length h
             \<and> h ! snd ab = copy_track n (h ! fst ab)"
    using assms(1) by (simp add: copied_def)
  have 4: "nb \<le> length h" using assms(1) by (simp add: copied_def)
  have 5: "\<forall>ab \<in> set memo. fst ab < nb \<and> nb \<le> snd ab
             \<and> snd ab < length (h @ [copy_track n (h ! r)])
             \<and> (h @ [copy_track n (h ! r)]) ! snd ab
                 = copy_track n ((h @ [copy_track n (h ! r)]) ! fst ab)"
    using 3 4 by (auto simp: nth_append)
  have 6: "(h @ [copy_track n (h ! r)]) ! length h
            = copy_track n ((h @ [copy_track n (h ! r)]) ! r)"
    using assms(3) 4 by (simp add: nth_append)
  show ?thesis
    unfolding copied_def using assms(1,3) 1 2 4 5 6 by (simp add: copied_def)
qed

lemma deepcopy_tracks_memo:
  assumes "deepcopy_tracks n h memo rs = (h', rs')"
    and "copied n nb h memo" and "\<forall>r \<in> set rs. r < nb"
  shows "\<exists>memo'. copied n nb h' memo'
           \<and> (\<forall>a b. map_of memo a = Some b \<longrightarrow> map_of memo' a = Some b)
           \<and> map Some rs' = map (map_of memo') rs
           \<and> take (length h) h' = h"
  using assms
proof (induction rs arbitrary: h memo h' rs')
  case Nil
  then show ?case by auto
next
  case (Cons r rs)
  show ?case
  proof (cases "map_of memo r")
    case (Some b)
    obtain h2 rs2 where d: "deepcopy_tracks n h memo rs = (h2, rs2)"
      by (cases "deepcopy_tracks n h memo rs")
    with Cons.prems(1) Some have e: "h' = h2" "rs' = b # rs2" by auto
    have v: "\<forall>r \<in> set rs. r < nb" using Cons.prems(3) by simp
    from Cons.IH[OF d Cons.prems(2) v] obtain memo' where m:
      "copied n nb h2 memo'" "\<forall>a b. map_of memo a = Some b \<longrightarrow> map_of memo' a = Some b"
      "map Some rs2 = map (map_of memo') rs" "take (length h) h2 = h" by blast
    have "map_of memo' r = Some b" using m(2) Some by blast
    then have "map Some rs' = map (map_of memo') (r # rs)" using m(3) e by simp
    then show ?thesis using m e by blast
  next
    case None
    let ?h0 = "h @ [copy_track n (h ! r)]"
    let ?m0 = "(r, length h) # memo"
    obtain h2 rs2 where d: "deepcopy_tracks n ?h0 ?m0 rs = (h2, rs2)"
      by (cases "deepcopy_tracks n ?h0 ?m0 rs")
    with Cons.prems(1) None have e: "h' = h2" "rs' = length h # rs2" by auto
    have v: "\<forall>r \<in> set rs. r < nb" using Cons.prems(3) by simp
    have c: "copied n nb ?h0 ?m0"
      using Cons.prems(2,3) None by (intro copied_step) simp_all
    from Cons.IH[OF d c v] obtain memo' where m:
      "copied n nb h2 memo'" "\<forall>a b. map_of ?m0 a = Some b \<longrightarrow> map_of memo' a = Some b"
      "map Some rs2 = map (map_of memo') rs" "take (length ?h0) h2 = ?h0" by blast
    have 1: "map_of memo' r = Some (length h)" using m(2) by simp
    have 2: "\<forall>a b. map_of memo a = Some b \<longrightarrow> map_of memo' a = Some b"
    proof (intro allI impI)
      fix a b assume ab: "map_of memo a = Some b"
      then have "a \<noteq> r" using None by auto
      then have "map_of ?m0 a = Some b" using ab by simp
      then show "map_of memo' a = Some b" using m(2) by blast
    qed
    have "take (length h) (take (length ?h0) h2) = take (length h) ?h0" using m(4) by simp
    then have 3: "take (length h) h2 = h" by simp
    have "map Some rs' = map (map_of memo') (r # rs)" using m(3) e 1 by simp
    then show ?thesis using m(1) 2 3 e by blast
  qed
qed

text \<open>What \<open>copy.deepcopy\<close> of a timeline gives: the store as it was and new tracks
  after it; a new track for each track of the timeline, the same one where the timeline
  lists a track twice and another one otherwise; each the copy of its track.\<close>

lemma deepcopy_effect:
  assumes "deepcopy s base = (s1, filled)"
    and "\<forall>r \<in> set (tracks base). r < length (cells s)"
  shows "filled = base\<lparr>tracks := tracks filled\<rparr>"
    and "length (tracks filled) = length (tracks base)"
    and "take (length (cells s)) (cells s1) = cells s"
    and "next_id s1 = next_id s + next_id s"
    and "\<forall>i < length (tracks base).
           length (cells s) \<le> tracks filled ! i \<and> tracks filled ! i < length (cells s1)
           \<and> cells s1 ! (tracks filled ! i) = copy_track (next_id s) (cells s ! (tracks base ! i))"
    and "\<forall>i < length (tracks base). \<forall>j < length (tracks base).
           (tracks filled ! i = tracks filled ! j) = (tracks base ! i = tracks base ! j)"
proof -
  let ?n = "next_id s" and ?nb = "length (cells s)"
  obtain h1 rs where d: "deepcopy_tracks ?n (cells s) [] (tracks base) = (h1, rs)"
    by (cases "deepcopy_tracks ?n (cells s) [] (tracks base)")
  have e: "s1 = \<lparr>cells = h1, next_id = ?n + ?n\<rparr>" "filled = base\<lparr>tracks := rs\<rparr>"
    using assms(1) d by (simp_all add: deepcopy_def)
  have c0: "copied ?n ?nb (cells s) []" by (simp add: copied_def)
  from deepcopy_tracks_memo[OF d c0 assms(2)] obtain memo where m:
    "copied ?n ?nb h1 memo" "map Some rs = map (map_of memo) (tracks base)"
    "take ?nb h1 = cells s" by auto
  show "filled = base\<lparr>tracks := tracks filled\<rparr>" using e by simp
  have len: "length rs = length (tracks base)" using m(2) by (metis length_map)
  show "length (tracks filled) = length (tracks base)" using e len by simp
  show "take (length (cells s)) (cells s1) = cells s" using e m(3) by simp
  show "next_id s1 = next_id s + next_id s" using e by simp
  have look: "map_of memo (tracks base ! i) = Some (rs ! i)" if "i < length (tracks base)" for i
  proof -
    have "map Some rs ! i = map (map_of memo) (tracks base) ! i" using m(2) by simp
    then show ?thesis using that len by simp
  qed
  have mem: "(tracks base ! i, rs ! i) \<in> set memo" if "i < length (tracks base)" for i
    using look[OF that] by (rule map_of_SomeD)
  have old: "h1 ! a = cells s ! a" if "a < ?nb" for a
  proof -
    have "take ?nb h1 ! a = h1 ! a" using that by simp
    then show ?thesis using m(3) by simp
  qed
  show "\<forall>i < length (tracks base).
           length (cells s) \<le> tracks filled ! i \<and> tracks filled ! i < length (cells s1)
           \<and> cells s1 ! (tracks filled ! i) = copy_track (next_id s) (cells s ! (tracks base ! i))"
  proof (intro allI impI)
    fix i assume i: "i < length (tracks base)"
    from m(1) mem[OF i] have p: "tracks base ! i < ?nb" "?nb \<le> rs ! i" "rs ! i < length h1"
        "h1 ! (rs ! i) = copy_track ?n (h1 ! (tracks base ! i))"
      by (auto simp: copied_def)
    show "length (cells s) \<le> tracks filled ! i \<and> tracks filled ! i < length (cells s1)
           \<and> cells s1 ! (tracks filled ! i) = copy_track (next_id s) (cells s ! (tracks base ! i))"
      using p old[OF p(1)] e by simp
  qed
  have inj: "inj_on snd (set memo)" "inj_on fst (set memo)"
    using m(1) by (simp_all add: copied_def distinct_map)
  show "\<forall>i < length (tracks base). \<forall>j < length (tracks base).
           (tracks filled ! i = tracks filled ! j) = (tracks base ! i = tracks base ! j)"
  proof (intro allI impI)
    fix i j assume ij: "i < length (tracks base)" "j < length (tracks base)"
    have "rs ! i = rs ! j \<longleftrightarrow> tracks base ! i = tracks base ! j"
    proof
      assume "rs ! i = rs ! j"
      then have "snd (tracks base ! i, rs ! i) = snd (tracks base ! j, rs ! j)" by simp
      from inj_onD[OF inj(1) this mem[OF ij(1)] mem[OF ij(2)]]
      show "tracks base ! i = tracks base ! j" by simp
    next
      assume "tracks base ! i = tracks base ! j"
      then show "rs ! i = rs ! j" using look[OF ij(1)] look[OF ij(2)] by simp
    qed
    then show "(tracks filled ! i = tracks filled ! j) = (tracks base ! i = tracks base ! j)"
      using e by simp
  qed
qed

lemma placed_sharing:
  assumes "length refs' = length refs"
    and "\<forall>j < length refs. (refs' ! j = refs' ! ti) = (refs ! j = refs ! ti)"
  shows "placed refs' pos data ti len p c kp = placed refs pos data ti len p c kp"
proof (cases "map_of pos (fst kp)")
  case None
  then show ?thesis by (simp add: placed_def)
next
  case (Some tc)
  obtain t ci where tc: "tc = (t, ci)" by (cases tc)
  show ?thesis
  proof (cases "0 \<le> t \<and> t < int (length refs)")
    case True
    then have "nat t < length refs" by auto
    then have "(refs' ! nat t = refs' ! ti) = (refs ! nat t = refs ! ti)" using assms(2) by blast
    then show ?thesis using Some assms(1) by (auto simp: placed_def tc split: sum.splits)
  next
    case False
    then show ?thesis using Some assms(1) by (auto simp: placed_def tc split: sum.splits)
  qed
qed

lemma copy_track_clips [simp]:
  "length (clips (copy_track n tr)) = length (clips tr)"
  "(copy_track n tr)\<lparr>clips := cs\<rparr> = tr\<lparr>clips := cs\<rparr>"
  "p < length (clips tr) \<Longrightarrow> unnamed (clips (copy_track n tr) ! p) = unnamed (clips tr ! p)"
  by (simp_all add: copy_track_def)

text \<open>\<open>fill\<close> when a placeholder reports an error: one \<open>ValueError\<close> with all the
  messages, and nothing is changed.\<close>

lemma fill_rejects:
  "template_validate_data tpl data \<noteq> [] \<Longrightarrow>
     fill s tpl data =
       (Inl (ValueError (''Template validation failed: ''
               @ join ''; '' (template_validate_data tpl data))), s)"
  by (simp add: fill_def)

text \<open>Whether \<open>fill\<close> returns or raises, every track that was in the store is as
  before: the base timeline is not changed.\<close>

lemma fill_keeps_base:
  assumes "\<forall>r \<in> set (tracks (template_timeline tpl)). r < length (cells s)"
  shows "take (length (cells s)) (cells (snd (fill s tpl data))) = cells s"
proof (cases "template_validate_data tpl data = []")
  case False
  then show ?thesis by (simp add: fill_def)
next
  case True
  let ?base = "template_timeline tpl"
  obtain s1 f where d: "deepcopy s ?base = (s1, f)" by (cases "deepcopy s ?base")
  obtain res s2 where l: "fill_loop s1 f (placeholder_positions tpl) data (placeholders tpl)
        = (res, s2)"
    by (cases "fill_loop s1 f (placeholder_positions tpl) data (placeholders tpl)")
  note de = deepcopy_effect[OF d assms]
  from fill_loop_frame[OF l]
  have f2: "length (cells s2) = length (cells s1)"
    "\<forall>r. r \<notin> set (tracks f) \<longrightarrow> cells s2 ! r = cells s1 ! r" by auto
  have le: "length (cells s) \<le> length (cells s1)"
    using de(3) by (metis length_take min.cobounded1 min.commute)
  have "i \<notin> set (tracks f)" if "i < length (cells s)" for i
  proof
    assume "i \<in> set (tracks f)"
    then obtain j where "j < length (tracks f)" "tracks f ! j = i"
      by (auto simp: in_set_conv_nth)
    then show False using de(2,5) that by auto
  qed
  then have "cells s2 ! i = cells s1 ! i" if "i < length (cells s)" for i
    using f2(2) that by blast
  then have "take (length (cells s)) (cells s2) = take (length (cells s)) (cells s1)"
    using f2(1) le by (intro nth_equalityI) auto
  then have "take (length (cells s)) (cells s2) = cells s" using de(3) by simp
  moreover have "snd (fill s tpl data) = s2"
    using True d l by (cases res) (simp_all add: fill_def)
  ultimately show ?thesis by simp
qed

text \<open>\<open>fill\<close> returns a timeline when validation passes and the second loop has
  nothing to raise.\<close>

lemma fill_returns:
  assumes "\<forall>r \<in> set (tracks (template_timeline tpl)). r < length (cells s)"
    and "template_validate_data tpl data = []" and "fillable s tpl data"
  shows "\<exists>filled. fst (fill s tpl data) = Inr filled"
proof -
  let ?base = "template_timeline tpl"
  obtain s1 f where d: "deepcopy s ?base = (s1, f)" by (cases "deepcopy s ?base")
  note de = deepcopy_effect[OF d assms(1)]
  let ?lens = "\<lambda>r. length (clips (cells s1 ! r))"
  have g: "(case get_track f t of
              Inr (Some r) \<Rightarrow> ci < int (?lens r) \<longrightarrow> - int (?lens r) \<le> ci
            | _ \<Rightarrow> True)"
    if "(case get_track ?base t of
              Inr (Some r) \<Rightarrow> ci < int (length (clips (cells s ! r)))
                           \<longrightarrow> - int (length (clips (cells s ! r))) \<le> ci
            | _ \<Rightarrow> True)" for t ci
  proof (cases "0 \<le> t \<and> t < int (length (tracks ?base))")
    case False
    then have "get_track f t = Inr None" using de(2) by (simp add: get_track_None)
    then show ?thesis by simp
  next
    case True
    then have n: "nat t < length (tracks ?base)" by auto
    have 1: "get_track f t = Inr (Some (tracks f ! nat t))"
      using True de(2) by (simp add: get_track_Some)
    have 2: "get_track ?base t = Inr (Some (tracks ?base ! nat t))"
      using True by (simp add: get_track_Some)
    have 3: "cells s1 ! (tracks f ! nat t)
        = copy_track (next_id s) (cells s ! (tracks ?base ! nat t))"
      using de(5) n by blast
    show ?thesis using that by (simp add: 1 2 3)
  qed
  have "list_all
       (\<lambda>kp. case map_of (placeholder_positions tpl) (fst kp) of
                None \<Rightarrow> True
              | Some (t, ci) \<Rightarrow>
                  (case create_clip (snd kp) data of Inl e \<Rightarrow> False | Inr made \<Rightarrow> True)
                  \<and> (case get_track f t of
                       Inr (Some r) \<Rightarrow> ci < int (?lens r) \<longrightarrow> - int (?lens r) \<le> ci
                     | _ \<Rightarrow> True)) (placeholders tpl)"
    using assms(3) g unfolding fillable_def list_all_iff
    by (auto split: option.splits prod.splits)
  from fill_loop_returns[OF this, of s1]
  have "fst (fill_loop s1 f (placeholder_positions tpl) data (placeholders tpl)) = None"
    by simp
  then show ?thesis
    using assms(2) d
    by (cases "fill_loop s1 f (placeholder_positions tpl) data (placeholders tpl)")
       (simp add: fill_def)
qed

text \<open>
  The timeline that \<open>fill\<close> returns. It has the settings of the base and as many
  tracks; its tracks are new objects, the same object where the base lists one track
  twice; the clips in them are new objects; and each track is the track of the base
  with, at every position, the clip that \<open>filled_track\<close> gives, up to the identity
  of the clips.
\<close>

lemma fill_result:
  assumes "\<forall>r \<in> set (tracks (template_timeline tpl)). r < length (cells s)"
    and "fst (fill s tpl data) = Inr filled"
  shows "template_validate_data tpl data = []"
    and "filled = (template_timeline tpl)\<lparr>tracks := tracks filled\<rparr>"
    and "length (tracks filled) = length (tracks (template_timeline tpl))"
    and "\<forall>i < length (tracks filled).
           length (cells s) \<le> tracks filled ! i
           \<and> tracks filled ! i < length (cells (snd (fill s tpl data)))"
    and "\<forall>i < length (tracks filled). \<forall>j < length (tracks filled).
           (tracks filled ! i = tracks filled ! j)
             = (tracks (template_timeline tpl) ! i = tracks (template_timeline tpl) ! j)"
    and "\<forall>tr \<in> set (read_timeline (snd (fill s tpl data)) filled).
           \<forall>c \<in> set (clips tr). next_id s \<le> clip_id c"
    and "map unnamed_track (read_timeline (snd (fill s tpl data)) filled) =
           map (\<lambda>ti. filled_track tpl data ti (cells s ! (tracks (template_timeline tpl) ! ti)))
             [0..<length (tracks (template_timeline tpl))]"
proof -
  let ?base = "template_timeline tpl"
  let ?n = "length (tracks ?base)"
  let ?pos = "placeholder_positions tpl"
  show v: "template_validate_data tpl data = []"
  proof (rule ccontr)
    assume "template_validate_data tpl data \<noteq> []"
    then have "\<exists>e. fst (fill s tpl data) = Inl e" by (simp add: fill_def)
    with assms(2) show False by auto
  qed
  obtain s1 f where d: "deepcopy s ?base = (s1, f)" by (cases "deepcopy s ?base")
  obtain res s2 where l: "fill_loop s1 f ?pos data (placeholders tpl) = (res, s2)"
    by (cases "fill_loop s1 f ?pos data (placeholders tpl)")
  have r: "res = None" "filled = f" "snd (fill s tpl data) = s2"
    using assms(2) v d l by (cases res; simp add: fill_def)+
  note de = deepcopy_effect[OF d assms(1)]
  note fr = fill_loop_frame[OF l]
  show "filled = ?base\<lparr>tracks := tracks filled\<rparr>" using de(1) r(2) by simp
  show "length (tracks filled) = ?n" using de(2) r(2) by simp
  show "\<forall>i < length (tracks filled).
           length (cells s) \<le> tracks filled ! i
           \<and> tracks filled ! i < length (cells (snd (fill s tpl data)))"
    using de(2,5) fr r(2,3) by simp
  show "\<forall>i < length (tracks filled). \<forall>j < length (tracks filled).
           (tracks filled ! i = tracks filled ! j) = (tracks ?base ! i = tracks ?base ! j)"
    using de(2,6) r(2) by simp
  have v1: "\<forall>r \<in> set (tracks f). r < length (cells s1)"
    using de(2,5) by (auto simp: in_set_conv_nth)
  have ids1: "\<forall>r \<in> set (tracks f). \<forall>c \<in> set (clips (cells s1 ! r)). next_id s \<le> clip_id c"
  proof
    fix r assume "r \<in> set (tracks f)"
    then obtain i where "i < ?n" "tracks f ! i = r" using de(2) by (auto simp: in_set_conv_nth)
    then have "cells s1 ! r = copy_track (next_id s) (cells s ! (tracks ?base ! i))"
      using de(5) by blast
    then show "\<forall>c \<in> set (clips (cells s1 ! r)). next_id s \<le> clip_id c"
      by (auto simp: copy_track_def copy_clip_def)
  qed
  have "next_id s \<le> next_id s1" using de(4) by simp
  from fill_loop_ids[OF l this ids1]
  show "\<forall>tr \<in> set (read_timeline (snd (fill s tpl data)) filled).
           \<forall>c \<in> set (clips tr). next_id s \<le> clip_id c"
    unfolding r(2,3) by (simp add: read_timeline_def)
  have c: "unnamed_track (cells s2 ! (tracks f ! ti))
         = filled_track tpl data ti (cells s ! (tracks ?base ! ti))"
    if ti: "ti < ?n" for ti
  proof -
    let ?tr = "cells s ! (tracks ?base ! ti)"
    let ?len = "length (clips ?tr)"
    have c1: "cells s1 ! (tracks f ! ti) = copy_track (next_id s) ?tr" using de(5) ti by blast
    have "ti < length (tracks f)" using ti de(2) by simp
    from fill_loop_content[OF l[unfolded r(1)] v1 this]
    have 1: "unnamed_track (cells s2 ! (tracks f ! ti)) =
       ?tr\<lparr>clips :=
        map (\<lambda>p. foldl (placed (tracks f) ?pos data ti ?len p)
                    (unnamed (clips (copy_track (next_id s) ?tr) ! p)) (placeholders tpl))
          [0..<?len]\<rparr>"
      by (simp add: c1)
    have sh: "\<forall>j < ?n. (tracks f ! j = tracks f ! ti) = (tracks ?base ! j = tracks ?base ! ti)"
      using de(6) ti by blast
    have pl: "placed (tracks f) ?pos data ti ?len p = placed (tracks ?base) ?pos data ti ?len p"
      for p
      by (intro ext placed_sharing de(2) sh)
    have "map (\<lambda>p. foldl (placed (tracks f) ?pos data ti ?len p)
                    (unnamed (clips (copy_track (next_id s) ?tr) ! p)) (placeholders tpl))
          [0..<?len]
        = map (\<lambda>p. foldl (placed (tracks ?base) ?pos data ti ?len p)
                    (unnamed (clips ?tr ! p)) (placeholders tpl))
          [0..<?len]"
      by (rule map_cong) (simp_all add: pl)
    then show ?thesis using 1 by (simp add: filled_track_def clip_after_def)
  qed
  show "map unnamed_track (read_timeline (snd (fill s tpl data)) filled) =
           map (\<lambda>ti. filled_track tpl data ti (cells s ! (tracks ?base ! ti))) [0..<?n]"
    unfolding r(2,3) using de(2)
    by (intro nth_equalityI) (simp_all add: read_timeline_def c)
qed

section \<open>Tracks and timelines: the claims\<close>

lemma find_clips_loop_filter:
  "find_clips_loop fadd cs t acc =
     Inr (acc @ filter (\<lambda>c. case duration c of None \<Rightarrow> False
                               | Some d \<Rightarrow> start_time c \<le> t \<and> t < fadd (start_time c) d) cs)"
  by (induction cs arbitrary: acc) (auto simp: end_time_def split: option.splits)

text \<open>
  Claim C8. For every track and every time \<open>t\<close>, \<open>find_clips_at_time(t)\<close> returns,
  in track order, exactly the clips that have a duration and satisfy
  \<open>start_time \<le> t < end_time\<close>, where \<open>end_time\<close> is the float sum of
  \<open>start_time\<close> and \<open>duration\<close> that \<open>Clip.end_time\<close> returns; it never raises,
  and a clip without a duration is never returned. This holds whatever the float
  addition rounds to.
\<close>

theorem find_clips_at_time_half_open:
  "find_clips_at_time fadd tr t =
     Inr (filter (\<lambda>c. case duration c of None \<Rightarrow> False
                        | Some d \<Rightarrow> start_time c \<le> t \<and> t < fadd (start_time c) d) (clips tr))
 \<and> (\<forall>c. end_time fadd c =
        (case duration c of
           None \<Rightarrow> Inl (ValueError ''Cannot calculate end_time without duration'')
         | Some d \<Rightarrow> Inr (fadd (start_time c) d)))"
  by (simp add: find_clips_at_time_def find_clips_loop_filter end_time_def)

text \<open>The first clip is found at \<open>0\<close> and at \<open>4.5\<close> and no longer at \<open>5\<close>; nothing
  is found at \<open>7\<close>. The clip that starts at \<open>10^16\<close> has the rounded end
  \<open>10^16\<close>, so it is found at no time, not even at its start.\<close>

theorem find_clips_at_time_half_open_witness:
  "find_clips_at_time double_add three 0 = Inr [mk_clip 1 TextClip 0 (Some 5)]
 \<and> find_clips_at_time double_add three 4.5
      = Inr [mk_clip 1 TextClip 0 (Some 5), mk_clip 2 TextClip 4 (Some 3)]
 \<and> find_clips_at_time double_add three 5 = Inr [mk_clip 2 TextClip 4 (Some 3)]
 \<and> find_clips_at_time double_add three 7 = Inr []
 \<and> end_time double_add (mk_clip 5 TextClip (10 ^ 16) (Some 1)) = Inr (10 ^ 16)
 \<and> find_clips_at_time double_add three (10 ^ 16) = Inr []"
  by (simp add: find_clips_at_time_half_open three_def Track_def mk_clip_def double_add_def)

lemma shift_in_take_drop: "shift_in n x xs = take n xs @ x # drop n xs"
  by (induction n x xs rule: shift_in.induct) simp_all

text \<open>
  Claim C9, as the code has it. \<open>add_clip\<close> checks the class of the clip against the
  type of the track when the clip is inserted. On a Video track a clip that is neither
  a Video nor an Image clip makes it raise the type-mismatch \<open>ValueError\<close> and the
  track is left as it was. A Video or Image clip is appended when no index is given.
  With an index inside the range of the interpreter's index type the clip is put at
  that position of the list (counted from the end when negative, and brought into the
  list), the clips before it staying and the clips from there on following it; with an
  index outside that range \<open>list.insert\<close> raises \<open>OverflowError\<close> and the track is
  left as it was. The same holds for Audio tracks with Audio clips and Text tracks with
  Text clips, and a Composite track takes every clip.
\<close>

theorem add_clip_checks_class:
  "add_clip tr c index =
     (if \<not> accepts (track_type tr) (clip_class c)
      then (Some (ValueError (''Track type '' @ TrackType_value (track_type tr)
                     @ '' cannot contain '' @ class_name (clip_class c))), tr)
      else (case index of
              None \<Rightarrow> (None, tr\<lparr>clips := clips tr @ [c]\<rparr>)
            | Some i \<Rightarrow>
                if i < - (2 ^ 63) \<or> 2 ^ 63 \<le> i
                then (Some (OverflowError ''Python int too large to convert to C ssize_t''), tr)
                else (None, tr\<lparr>clips :=
                        take (nat (if i < 0 then i + int (length (clips tr)) else i)) (clips tr)
                        @ c # drop (nat (if i < 0 then i + int (length (clips tr)) else i))
                                (clips tr)\<rparr>)))"
  by (cases "track_type tr"; cases "clip_class c"; cases index)
     (simp_all add: add_clip_def validate_clip_type_def py_insert_def ssize_t_max_def
        shift_in_take_drop)

text \<open>On a Video track: an Audio clip is refused; an Image clip is appended; a Video
  clip is inserted at index \<open>1\<close> between two clips, at index \<open>-1\<close> before the last
  one, and at the largest index of the range after the last one.\<close>

theorem add_clip_checks_class_witness:
  "add_clip (Track VIDEO None True) (mk_clip 1 AudioClip 0 (Some 5)) None
     = (Some (ValueError ''Track type video cannot contain AudioClip''), Track VIDEO None True)
 \<and> clips (snd (add_clip (Track VIDEO None True) (mk_clip 2 ImageClip 0 (Some 5)) None))
     = [mk_clip 2 ImageClip 0 (Some 5)]
 \<and> clips (snd (add_clip
       ((Track VIDEO None True)\<lparr>clips := [mk_clip 2 ImageClip 0 (Some 5),
                                           mk_clip 4 ImageClip 5 (Some 5)]\<rparr>)
       (mk_clip 3 VideoClip 0 None) (Some 1)))
     = [mk_clip 2 ImageClip 0 (Some 5), mk_clip 3 VideoClip 0 None,
        mk_clip 4 ImageClip 5 (Some 5)]
 \<and> clips (snd (add_clip
       ((Track VIDEO None True)\<lparr>clips := [mk_clip 2 ImageClip 0 (Some 5),
                                           mk_clip 4 ImageClip 5 (Some 5)]\<rparr>)
       (mk_clip 3 VideoClip 0 None) (Some (- 1))))
     = [mk_clip 2 ImageClip 0 (Some 5), mk_clip 3 VideoClip 0 None,
        mk_clip 4 ImageClip 5 (Some 5)]
 \<and> clips (snd (add_clip
       ((Track VIDEO None True)\<lparr>clips := [mk_clip 2 ImageClip 0 (Some 5),
                                           mk_clip 4 ImageClip 5 (Some 5)]\<rparr>)
       (mk_clip 3 VideoClip 0 None) (Some (2 ^ 63 - 1))))
     = [mk_clip 2 ImageClip 0 (Some 5), mk_clip 4 ImageClip 5 (Some 5),
        mk_clip 3 VideoClip 0 None]"
  by (simp add: add_clip_checks_class Track_def mk_clip_def)

text \<open>The claim has \<open>add_clip\<close> succeed for every Video clip on a Video track. With
  the index \<open>2^63\<close> the class check passes and \<open>list.insert\<close> raises: the call
  fails and the clip is not on the track.\<close>

theorem add_clip_index_overflow_counterexample:
  "add_clip (Track VIDEO None True) (mk_clip 1 VideoClip 0 (Some 5)) (Some (2 ^ 63))
     = (Some (OverflowError ''Python int too large to convert to C ssize_t''),
        Track VIDEO None True)"
  by (simp add: add_clip_def validate_clip_type_def py_insert_def ssize_t_max_def Track_def
      mk_clip_def)

text \<open>
  Claim C10. \<open>Track.get_clip(index)\<close> and \<open>Timeline.get_track(index)\<close> return for
  every integer: \<open>None\<close> when the index is negative or not less than the number of
  clips (tracks), the element at that position otherwise; the list access behind the
  guard never raises.
\<close>

theorem get_clip_get_track_total:
  "get_clip tr i = Inr (if i < 0 \<or> int (length (clips tr)) \<le> i then None
                        else Some (clips tr ! nat i))
 \<and> get_track tln j = Inr (if j < 0 \<or> int (length (tracks tln)) \<le> j then None
                           else Some (tracks tln ! nat j))"
  by (auto simp: get_clip_def get_track_def py_getitem_def Let_def)

theorem get_clip_get_track_total_witness:
  "get_clip three (- 1) = Inr None \<and> get_clip three 5 = Inr None
 \<and> get_clip three 1 = Inr (Some (mk_clip 2 TextClip 4 (Some 3)))
 \<and> get_track ((Timeline 1920 1080)\<lparr>tracks := [three]\<rparr>) (- 3) = Inr None
 \<and> get_track ((Timeline 1920 1080)\<lparr>tracks := [three]\<rparr>) 1 = Inr None
 \<and> get_track ((Timeline 1920 1080)\<lparr>tracks := [three]\<rparr>) 0 = Inr (Some three)"
  using get_clip_get_track_total [of three "- 1" "(Timeline 1920 1080)\<lparr>tracks := [three]\<rparr>" "- 3"]
    get_clip_get_track_total [of three 5 "(Timeline 1920 1080)\<lparr>tracks := [three]\<rparr>" 1]
    get_clip_get_track_total [of three 1 "(Timeline 1920 1080)\<lparr>tracks := [three]\<rparr>" 0]
  by (simp add: three_def Timeline_def Track_def)

text \<open>
  Claim C5 says that \<open>Timeline.duration\<close> is \<open>0\<close> when every track is disabled, and
  when the enabled tracks hold only clips without a duration. The source tests only
  for an empty list before it calls \<open>max\<close>: with one disabled track, and with one
  enabled track holding a clip without duration, the property raises \<open>ValueError\<close>.
  No float is added on these inputs.
\<close>

theorem timeline_duration_raises_when_nothing_counts:
  "timeline_duration fadd ((Timeline 1920 1080)\<lparr>tracks := [Track COMPOSITE None False]\<rparr>)
     = Inl (ValueError ''max() arg is an empty sequence'')
 \<and> timeline_duration fadd ((Timeline 1920 1080)\<lparr>tracks :=
       [(Track VIDEO None True)\<lparr>clips := [mk_clip 1 VideoClip 0 None]\<rparr>]\<rparr>)
     = Inl (ValueError ''max() arg is an empty sequence'')"
  by (simp add: timeline_duration_def Timeline_def Track_def py_max_of_def track_duration_def
      mk_clip_def)

text \<open>
  Claim C6 says that every key of the transition dictionary is the position of a clip
  that is not the last one, after any sequence of \<open>add_clip\<close>, \<open>remove_clip\<close>,
  \<open>add_transition\<close> and \<open>remove_transition\<close>. \<open>remove_clip\<close> deletes the
  transition stored under the index it removes and nothing else: two clips, a
  transition after the first, then the second clip removed, leave one clip and a
  transition after it.
\<close>

theorem remove_clip_leaves_transition_after_last_clip:
  "clips (run_track_ops (Track VIDEO None True)
      [AddClip (mk_clip 1 VideoClip 0 (Some 5)) None,
       AddClip (mk_clip 2 VideoClip 5 (Some 5)) None,
       AddTransition 0 crossfade,
       RemoveClip (ByIndex 1)]) = [mk_clip 1 VideoClip 0 (Some 5)]
 \<and> get_transition (run_track_ops (Track VIDEO None True)
      [AddClip (mk_clip 1 VideoClip 0 (Some 5)) None,
       AddClip (mk_clip 2 VideoClip 5 (Some 5)) None,
       AddTransition 0 crossfade,
       RemoveClip (ByIndex 1)]) 0 = Some crossfade
 \<and> \<not> transitions_valid (run_track_ops (Track VIDEO None True)
      [AddClip (mk_clip 1 VideoClip 0 (Some 5)) None,
       AddClip (mk_clip 2 VideoClip 5 (Some 5)) None,
       AddTransition 0 crossfade,
       RemoveClip (ByIndex 1)])"
  by (simp add: run_track_ops_def transitions_valid_def Track_def add_clip_def
      validate_clip_type_def mk_clip_def add_transition_def py_pop_def get_transition_def)

section \<open>Templates: the claim\<close>

lemmas template_eval = create_simple_text_template_def add_track_def add_placeholder_def
  Timeline_def VideoTemplate_def PlaceholderText_def get_track_def py_getitem_def
  py_setitem_def Track_def fill_def template_validate_data_def
  PlaceholderText_validate_data_def PlaceholderText_create_clip_def deepcopy_def
  copy_track_def copy_clip_def one_clip_def title_placeholder_def title_slide_def
  stale_slide_def subtitle_slide_def hello_def simple_text_def mk_clip_def
  read_timeline_def Let_def

text \<open>The general facts at work on the template \<open>title_slide\<close>: without the title
  \<open>fill\<close> raises and changes nothing; with it, the new track holds the new clip, and
  the track of the base holds the clip it had. On \<open>stale_slide\<close> the position does not
  exist in the track, the guard of the loop skips the assignment and the new track
  holds the copy of the clip of the base.\<close>

lemma fill_title_slide:
  "fill one_clip title_slide []
     = (Inl (ValueError ''Template validation failed: Missing required placeholder: title''),
        one_clip)
 \<and> fst (fill one_clip title_slide hello) = Inr ((Timeline 1920 1080)\<lparr>tracks := [1]\<rparr>)
 \<and> map clips (cells (snd (fill one_clip title_slide hello)))
     = [ [mk_clip 1 TextClip 0 (Some 5)],
        [\<lparr>clip_id = 4, clip_class = TextClip, start_time = 0, duration = Some 5,
          clip_name = Some ''title_text'', content = ''Hello''\<rparr>]]
 \<and> fst (fill one_clip stale_slide hello) = Inr ((Timeline 1920 1080)\<lparr>tracks := [1]\<rparr>)
 \<and> map clips (cells (snd (fill one_clip stale_slide hello)))
     = [ [mk_clip 1 TextClip 0 (Some 5)], [mk_clip 3 TextClip 0 (Some 5)]]"
  by (simp add: template_eval)

lemma fill_result_example:
  "map unnamed_track (read_timeline (snd (fill one_clip title_slide hello))
       ((Timeline 1920 1080)\<lparr>tracks := [1]\<rparr>))
     = [(Track COMPOSITE None True)\<lparr>clips :=
          [\<lparr>clip_id = 0, clip_class = TextClip, start_time = 0, duration = Some 5,
            clip_name = Some ''title_text'', content = ''Hello''\<rparr>]\<rparr>]
 \<and> fillable one_clip title_slide hello"
proof -
  have v: "\<forall>r \<in> set (tracks (template_timeline title_slide)). r < length (cells one_clip)"
    by (simp add: template_eval)
  have r: "fst (fill one_clip title_slide hello) = Inr ((Timeline 1920 1080)\<lparr>tracks := [1]\<rparr>)"
    by (simp add: template_eval)
  have x: "map (\<lambda>ti. filled_track title_slide hello ti
               (cells one_clip ! (tracks (template_timeline title_slide) ! ti)))
             [0..<length (tracks (template_timeline title_slide))]
     = [(Track COMPOSITE None True)\<lparr>clips :=
          [\<lparr>clip_id = 0, clip_class = TextClip, start_time = 0, duration = Some 5,
            clip_name = Some ''title_text'', content = ''Hello''\<rparr>]\<rparr>]"
    by (simp add: template_eval filled_track_def clip_after_def placed_def slot_def unnamed_def)
  have f: "fillable one_clip title_slide hello"
    by (simp add: template_eval fillable_def)
  from fill_result(7)[OF v r] x f show ?thesis by simp
qed

text \<open>
  Claim C4 says that \<open>fill\<close> returns a new timeline whenever no placeholder reports
  an error, and that each bound position then holds the clip that \<open>create_clip\<close>
  made. Two runs of the code where it does not.
  An optional \<open>PlaceholderText\<close> bound to the clip of a track, filled with data that
  lacks its key: \<open>validate_data\<close> reports nothing, and \<open>fill\<close> raises the
  \<open>UnboundLocalError\<close> of \<open>create_clip\<close>, which reads \<open>font_size\<close> on the path
  that never assigned it.
  The template that \<open>create_simple_text_template\<close> builds, filled with its title:
  \<open>add_placeholder\<close> with no \<open>clip_index\<close> binds the placeholder to position
  \<open>0\<close> of the new track and adds no clip there, so \<open>fill\<close> returns a timeline
  whose track is empty and the clip made from the title is in no track.
\<close>

theorem fill_raises_after_validation_passed:
  "map_of (placeholder_positions subtitle_slide) ''subtitle'' = Some (0, 0)
 \<and> template_validate_data subtitle_slide [] = []
 \<and> fst (fill one_clip subtitle_slide [])
     = Inl (UnboundLocalError
              (''cannot access local variable '' @ [CHR 0x27] @ ''font_size'' @ [CHR 0x27]
               @ '' where it is not associated with a value''))
 \<and> fst (snd simple_text) = None
 \<and> map_of (placeholder_positions (snd (snd simple_text))) ''title'' = Some (0, 0)
 \<and> template_validate_data (snd (snd simple_text)) hello = []
 \<and> fst (fill (fst simple_text) (snd (snd simple_text)) hello)
     = Inr ((Timeline 1920 1080)\<lparr>tracks := [1]\<rparr>)
 \<and> map clips (cells (snd (fill (fst simple_text) (snd (snd simple_text)) hello))) = [ [], []]"
  by (simp add: template_eval)

section \<open>The render queue: the claims\<close>




text \<open>
  What a sequential run does keep. Jobs are added to a new queue by \<open>add_job\<close> calls
  that all return, with pairwise distinct ids; every renderer always succeeds and the
  progress callback, if there is one, returns at every call. Then \<open>run(SEQUENTIAL)\<close>
  returns, the \<open>render\<close> calls are made for the jobs in the order of submission,
  every job of the queue is \<open>COMPLETED\<close>, and \<open>get_stats()\<close> reports as many
  completed jobs as were submitted.
\<close>

lemma sequential_run_completes_in_order:
  assumes "add_jobs env w (RenderQueue dr cb) subs = (map Inr ids, w1, q1)"
    and "distinct ids"
    and "\<forall>k j. map_of (jobs q1) k = Some j \<longrightarrow> always_succeeds (renderer j)"
    and "quiet q1"
  shows "\<exists>w2 q2. run_SEQUENTIAL env w1 q1 = (None, w2, q2)
      \<and> render_calls w2 = render_calls w1 @ ids
      \<and> map fst (jobs q2) = ids
      \<and> list_all (\<lambda>p. status (snd p) = COMPLETED) (jobs q2)
      \<and> completed (get_stats q2) = length subs"
proof -
  have p0: "all_pending_in_order (RenderQueue dr cb)"
    by (simp add: all_pending_in_order_def RenderQueue_def)
  have d0: "distinct (job_order (RenderQueue dr cb) @ ids)"
    using assms(2) by (simp add: RenderQueue_def)
  from add_jobs_fresh[OF assms(1) d0 p0]
  have f: "job_order q1 = ids" "all_pending_in_order q1" "\<not> running q1"
      "length ids = length subs"
    by (simp_all add: RenderQueue_def)
  have r: "\<forall>k j. map_of (jobs q1) k = Some j \<longrightarrow> render_of j = None"
    using assms(3) by (simp add: always_succeeds_def render_of_def)
  from completed_effect[OF f(3) f(2) _ r assms(4), of env w1] assms(2) f(1,4)
  show ?thesis by simp
qed

lemma sequential_run_completes_in_order_example:
  "\<exists>w2 q2. run_SEQUENTIAL env0 (fst (snd five_jobs)) (snd (snd five_jobs)) = (None, w2, q2)
      \<and> render_calls w2 = [''j1'', ''j2'', ''j3'', ''j4'', ''j5'']
      \<and> map fst (jobs q2) = [''j1'', ''j2'', ''j3'', ''j4'', ''j5'']
      \<and> list_all (\<lambda>p. status (snd p) = COMPLETED) (jobs q2)
      \<and> completed (get_stats q2) = 5"
proof -
  have a: "add_jobs env0 w0 (RenderQueue (Some succeeding) None)
     (map (\<lambda>k. \<lparr>sub_timeline = Timeline 1920 1080, sub_output_path = k @ ''.mp4'',
                 sub_renderer = None, sub_options = None, sub_job_id = Some k\<rparr>)
        [''j1'', ''j2'', ''j3'', ''j4'', ''j5''])
     = (map Inr [''j1'', ''j2'', ''j3'', ''j4'', ''j5''], fst (snd five_jobs), snd (snd five_jobs))"
    by (simp add: five_jobs_def queue_eval)
  have d: "distinct [''j1'', ''j2'', ''j3'', ''j4'', ''j5'']" by simp
  have s: "\<forall>k j. map_of (jobs (snd (snd five_jobs))) k = Some j
             \<longrightarrow> always_succeeds (renderer j)"
    by (simp add: five_jobs_def queue_eval always_succeeds_def)
  have c: "render_calls (fst (snd five_jobs)) = []"
    by (simp add: five_jobs_def queue_eval)
  have q: "quiet (snd (snd five_jobs))"
    by (simp add: five_jobs_def queue_eval quiet_def)
  from sequential_run_completes_in_order[OF a d s q] c show ?thesis
    by (simp add: eval_nat_numeral)
qed

text \<open>
  Claim C2 says that after any sequence of \<open>add_job\<close> calls a sequential run with a
  renderer that always succeeds leaves every job \<open>COMPLETED\<close> and \<open>get_stats()\<close>
  reporting as many completed jobs as were submitted. \<open>add_job\<close> does not look for
  the id it is given: two calls with the same caller-supplied id both return it, the
  second job takes the place of the first in the dictionary, and the run renders and
  completes one job where two were submitted.
\<close>

theorem duplicate_job_id_completes_one_job:
  "fst (add_jobs env0 w0 (RenderQueue None None)
          [submit ''a'' succeeding, submit ''a'' succeeding])
     = [Inr ''a'', Inr ''a'']
 \<and> completed (get_stats (snd (snd
       (run_SEQUENTIAL env0 (fst same_id_twice) (snd same_id_twice))))) = 1
 \<and> render_calls (fst (snd
       (run_SEQUENTIAL env0 (fst same_id_twice) (snd same_id_twice)))) = [''a'']"
  by (simp add: same_id_twice_def queue_eval)

text \<open>
  What the two operations do keep. From a queue whose ids are consistent, a sequence of
  \<open>add_job\<close> and \<open>remove_job\<close> calls in which no \<open>add_job\<close> uses an id that
  is in the order list at its turn leaves the ids consistent, and a \<open>remove_job(k)\<close>
  after it leaves \<open>k\<close> in neither the order list nor the dictionary.
\<close>

lemma add_remove_keep_ids_unique:
  assumes "queue_consistent q" and "fresh_ids env (w, q) ops"
  shows "queue_consistent (snd (run_queue_ops env (w, q) ops))
       \<and> k \<notin> set (job_order (snd (remove_job (snd (run_queue_ops env (w, q) ops)) k)))
       \<and> map_of (jobs (snd (remove_job (snd (run_queue_ops env (w, q) ops)) k))) k = None
       \<and> queue_consistent (snd (remove_job (snd (run_queue_ops env (w, q) ops)) k))"
proof -
  have "queue_consistent (snd (run_queue_ops env (w, q) ops))"
    using assms
  proof (induction ops arbitrary: w q)
    case Nil
    then show ?case by (simp add: run_queue_ops_def)
  next
    case (Cons a ops)
    obtain w1 q1 where st: "apply_queue_op env (w, q) a = (w1, q1)"
      by (cases "apply_queue_op env (w, q) a")
    have c1: "queue_consistent q1"
    proof (cases a)
      case (AddJob s)
      with Cons.prems st add_job_consistent[of q env w s] show ?thesis by simp
    next
      case (RemoveJob k')
      with Cons.prems st remove_job_consistent[of q k'] show ?thesis by auto
    qed
    have f1: "fresh_ids env (w1, q1) ops"
      using Cons.prems(2) st by (cases a) auto
    from Cons.IH[OF c1 f1] st show ?case by (simp add: run_queue_ops_def)
  qed
  then show ?thesis using remove_job_consistent by blast
qed

lemma add_remove_keep_ids_unique_example:
  "queue_consistent (snd (run_queue_ops env0 (w0, RenderQueue None None)
       [AddJob (submit ''a'' succeeding), AddJob (submit ''b'' succeeding), RemoveJob ''a'',
        AddJob (submit ''a'' succeeding)]))
 \<and> ''b'' \<notin> set (job_order (snd (remove_job (snd (run_queue_ops env0 (w0, RenderQueue None None)
       [AddJob (submit ''a'' succeeding), AddJob (submit ''b'' succeeding), RemoveJob ''a'',
        AddJob (submit ''a'' succeeding)])) ''b'')))
 \<and> map_of (jobs (snd (remove_job (snd (run_queue_ops env0 (w0, RenderQueue None None)
       [AddJob (submit ''a'' succeeding), AddJob (submit ''b'' succeeding), RemoveJob ''a'',
        AddJob (submit ''a'' succeeding)])) ''b''))) ''b'' = None
 \<and> queue_consistent (snd (remove_job (snd (run_queue_ops env0 (w0, RenderQueue None None)
       [AddJob (submit ''a'' succeeding), AddJob (submit ''b'' succeeding), RemoveJob ''a'',
        AddJob (submit ''a'' succeeding)])) ''b''))"
proof -
  have c: "queue_consistent (RenderQueue None None)"
    by (simp add: queue_consistent_def RenderQueue_def)
  have f: "fresh_ids env0 (w0, RenderQueue None None)
       [AddJob (submit ''a'' succeeding), AddJob (submit ''b'' succeeding), RemoveJob ''a'',
        AddJob (submit ''a'' succeeding)]"
    by (simp add: queue_eval next_job_id_def)
  from add_remove_keep_ids_unique[OF c f] show ?thesis by blast
qed

text \<open>
  Claim C3 says that no job id is ever duplicated in the state of the queue, an
  \<open>add_job\<close> with an id already in use included, and that \<open>remove_job\<close> leaves
  the dictionary and the order list consistent. \<open>add_job\<close> does not look for the
  id it is given: a second call with the same id replaces the job stored and lists the
  id twice, so that \<open>list_jobs()\<close> returns two jobs where \<open>get_stats()\<close> counts
  one; \<open>remove_job\<close> then takes out the entry and the first listing only, and the
  id stays in the order list with no entry in the dictionary.
\<close>

theorem duplicate_job_id_breaks_consistency:
  "job_order (snd (run_queue_ops env0 (w0, RenderQueue None None)
       [AddJob (submit ''a'' succeeding), AddJob (submit ''a'' succeeding)])) = [''a'', ''a'']
 \<and> length (list_jobs (snd (run_queue_ops env0 (w0, RenderQueue None None)
       [AddJob (submit ''a'' succeeding), AddJob (submit ''a'' succeeding)])) None) = 2
 \<and> total_jobs (get_stats (snd (run_queue_ops env0 (w0, RenderQueue None None)
       [AddJob (submit ''a'' succeeding), AddJob (submit ''a'' succeeding)]))) = 1
 \<and> job_order (snd (run_queue_ops env0 (w0, RenderQueue None None)
       [AddJob (submit ''a'' succeeding), AddJob (submit ''a'' succeeding), RemoveJob ''a'']))
     = [''a'']
 \<and> jobs (snd (run_queue_ops env0 (w0, RenderQueue None None)
       [AddJob (submit ''a'' succeeding), AddJob (submit ''a'' succeeding), RemoveJob ''a'']))
     = []
 \<and> \<not> queue_consistent (snd (run_queue_ops env0 (w0, RenderQueue None None)
       [AddJob (submit ''a'' succeeding), AddJob (submit ''a'' succeeding), RemoveJob ''a'']))"
  by (simp add: run_queue_ops_def queue_eval list_jobs_def queue_consistent_def)

text \<open>
  Claim C7 says that \<open>avg_duration\<close> is the mean of \<open>completed_at - started_at\<close>
  over all completed jobs, a job of zero seconds included, and is \<open>None\<close> only when
  no job is completed. \<open>get_stats\<close> keeps the completed jobs whose \<open>duration\<close> is
  true, and \<open>0.0\<close> is false. A job that the queue itself ran to completion between
  two equal clock readings is counted as completed and left out of the average, which
  is \<open>None\<close>; and of two completed jobs that took \<open>0\<close> and \<open>2\<close> seconds the
  average reported is \<open>2\<close>, not \<open>1\<close>.
\<close>

theorem zero_duration_dropped_from_average:
  "completed (get_stats (snd (snd
       (run_SEQUENTIAL frozen_clock (fst instant_job) (snd instant_job))))) = 1
 \<and> map_option job_duration (map_of (jobs (snd (snd
       (run_SEQUENTIAL frozen_clock (fst instant_job) (snd instant_job))))) ''a'') = Some (Some 0)
 \<and> avg_duration (get_stats (snd (snd
       (run_SEQUENTIAL frozen_clock (fst instant_job) (snd instant_job))))) = None
 \<and> completed (get_stats (snd (snd
       (run_SEQUENTIAL late_tick (fst two_paces) (snd two_paces))))) = 2
 \<and> map (\<lambda>p. job_duration (snd p)) (jobs (snd (snd
       (run_SEQUENTIAL late_tick (fst two_paces) (snd two_paces))))) = [Some 0, Some 2]
 \<and> avg_duration (get_stats (snd (snd
       (run_SEQUENTIAL late_tick (fst two_paces) (snd two_paces))))) = Some 2"
  by (simp add: instant_job_def two_paces_def late_tick_def queue_eval)

end
